theory Spec2Isabelle
  imports Main "HOL-Library.Multiset" "HOL-Library.AList" "HOL-Library.Sublist"
begin

section \<open>Constants of pack.py\<close>

definition MAX_FOLDERS_PER_PACK :: nat where
  "MAX_FOLDERS_PER_PACK = 20"

definition MAX_FILES_PER_PACK :: int where
  "MAX_FILES_PER_PACK = 255"

definition MAX_FILE_SIZE_KB :: int where
  "MAX_FILE_SIZE_KB = 400"

text \<open>The local list \<open>FILL_KEYS\<close> of \<open>create_sample_pack\<close>.\<close>

definition FILL_KEYS :: "string list" where
  "FILL_KEYS = [''Kick'', ''Snare'', ''HiHat'', ''Synth'', ''Bass'']"

datatype py_error =
  ZeroDivisionError | ValueError | KeyError | FileNotFoundError | SameFileError

section \<open>Category selection (pack.py, lines 1033-1045)\<close>

text \<open>
  A Python \<open>dict\<close> keeps its insertion order, and that order decides which categories
  are admitted, so \<open>sample_map\<close> is an association list; a dict has no repeated key,
  which is the condition \<open>distinct (map fst sample_map)\<close> of the theorems that need it.
\<close>

type_synonym 'a sample_map = "(string \<times> 'a list) list"

definition available_subfolders :: "'a sample_map \<Rightarrow> string list" where
  "available_subfolders sample_map = map fst (filter (\<lambda>(k, v). length v > 0) sample_map)"

definition prioritized_subfolders :: "'a sample_map \<Rightarrow> string list" where
  "prioritized_subfolders sample_map =
     filter (\<lambda>k. k \<in> set (available_subfolders sample_map)) FILL_KEYS"

definition remaining_subfolders :: "'a sample_map \<Rightarrow> string list" where
  "remaining_subfolders sample_map =
     filter (\<lambda>k. k \<notin> set (prioritized_subfolders sample_map)) (available_subfolders sample_map)"

text \<open>The folder cap is the parameter \<open>max_folders\<close>; the program passes \<open>MAX_FOLDERS_PER_PACK\<close>.\<close>

definition selected_subfolders :: "nat \<Rightarrow> 'a sample_map \<Rightarrow> string list" where
  "selected_subfolders max_folders sample_map =
     (if length (available_subfolders sample_map) > max_folders then
        (let selected = take max_folders (prioritized_subfolders sample_map) in
         if length selected < max_folders
         then selected @ take (max_folders - length selected) (remaining_subfolders sample_map)
         else selected)
      else available_subfolders sample_map)"

section \<open>The allocation loop (pack.py, lines 1049-1085)\<close>

subsection \<open>\<open>random.sample\<close>\<close>

text \<open>
  \<open>random.sample(population, k)\<close> picks \<open>k\<close> distinct positions of the list and returns
  the elements there; it raises \<open>ValueError\<close> when \<open>k\<close> is negative or larger than the
  population. The random source is a stream \<open>rnd\<close> of naturals read from a cursor: each
  number picks one of the positions still left, so every selection of \<open>k\<close> positions is
  the result for some stream.
\<close>

fun draw :: "(nat \<Rightarrow> nat) \<Rightarrow> nat \<Rightarrow> 'a list \<Rightarrow> nat \<Rightarrow> 'a list" where
  "draw rnd pos xs 0 = []"
| "draw rnd pos xs (Suc k) =
     (if xs = [] then []
      else (let j = rnd pos mod length xs
            in xs ! j # draw rnd (Suc pos) (take j xs @ drop (Suc j) xs) k))"

definition random_sample :: "(nat \<Rightarrow> nat) \<Rightarrow> nat \<Rightarrow> 'a list \<Rightarrow> int \<Rightarrow> py_error + 'a list" where
  "random_sample rnd pos population k =
     (if k < 0 \<or> int (length population) < k then Inl ValueError
      else Inr (draw rnd pos population (nat k)))"

subsection \<open>The local variables\<close>

text \<open>
  The loop's variables are the fields of the state; \<open>round_i\<close> is the source's \<open>i\<close> and
  \<open>rng\<close> the cursor into the random stream.
\<close>

record 'a alloc_state =
  files_left :: int
  files_inserted :: int
  files_per_kind :: int
  round_i :: int
  not_empty :: bool
  remaining_samples :: "'a sample_map"
  selected_files :: "'a sample_map"
  rng :: nat

text \<open>\<open>d.get(k, default)\<close> on a dict held as an association list.\<close>

definition dict_get :: "('k \<times> 'v) list \<Rightarrow> 'k \<Rightarrow> 'v \<Rightarrow> 'v" where
  "dict_get d k dflt = (case map_of d k of None \<Rightarrow> dflt | Some v \<Rightarrow> v)"

definition floordiv :: "int \<Rightarrow> int \<Rightarrow> py_error + int" where
  "floordiv a b = (if b = 0 then Inl ZeroDivisionError else Inr (a div b))"

text \<open>The body of \<open>for kind_key in all_kinds\<close> (lines 1070-1084).\<close>

definition for_body :: "(nat \<Rightarrow> nat) \<Rightarrow> string \<Rightarrow> 'a alloc_state \<Rightarrow> py_error + 'a alloc_state" where
  "for_body rnd kind_key st =
     (let kind_val = dict_get (remaining_samples st) kind_key [] in
      if kind_val = [] then Inr st
      else
        (let sample_num = min (files_per_kind st) (int (length kind_val)) in
         if sample_num > 0 then
           (let st1 = st\<lparr>not_empty := True, files_left := files_left st - sample_num\<rparr>;
                sample_num' = (if files_left st1 < 0 then sample_num + files_left st1 else sample_num);
                st2 = (if files_left st1 < 0 then st1\<lparr>files_left := 0\<rparr> else st1)
            in if sample_num' > 0 then
                 (case random_sample rnd (rng st2) kind_val sample_num' of
                    Inl e \<Rightarrow> Inl e
                  | Inr random_subset \<Rightarrow>
                      (case map_of (selected_files st2) kind_key of
                         None \<Rightarrow> Inl KeyError
                       | Some _ \<Rightarrow>
                           Inr (st2\<lparr>remaining_samples :=
                                      AList.update kind_key
                                        (filter (\<lambda>x. x \<notin> set random_subset) kind_val)
                                        (remaining_samples st2),
                                    selected_files :=
                                      AList.map_entry kind_key (\<lambda>l. l @ random_subset)
                                        (selected_files st2),
                                    files_inserted := files_inserted st2 + sample_num',
                                    rng := rng st2 + nat sample_num'\<rparr>)))
               else Inr st2)
         else Inr st))"

fun for_kinds :: "(nat \<Rightarrow> nat) \<Rightarrow> string list \<Rightarrow> 'a alloc_state \<Rightarrow> py_error + 'a alloc_state" where
  "for_kinds rnd [] st = Inr st"
| "for_kinds rnd (kind_key # ks) st =
     (case for_body rnd kind_key st of Inl e \<Rightarrow> Inl e | Inr st' \<Rightarrow> for_kinds rnd ks st')"

text \<open>
  One round: the body of the \<open>while\<close> loop after its \<open>break\<close> test (lines 1064-1085).
  The file budget is the parameter \<open>budget\<close>; the program passes \<open>MAX_FILES_PER_PACK\<close>.
\<close>

definition while_body ::
  "(nat \<Rightarrow> nat) \<Rightarrow> int \<Rightarrow> string list \<Rightarrow> 'a alloc_state \<Rightarrow> py_error + 'a alloc_state" where
  "while_body rnd budget all_kinds st =
     (case floordiv budget (int (length all_kinds)) of
        Inl e \<Rightarrow> Inl e
      | Inr fpk \<Rightarrow>
          (case (if round_i st > 0 then floordiv fpk (round_i st) else Inr fpk) of
             Inl e \<Rightarrow> Inl e
           | Inr fpk' \<Rightarrow>
               (case for_kinds rnd all_kinds (st\<lparr>files_per_kind := fpk', not_empty := False\<rparr>) of
                  Inl e \<Rightarrow> Inl e
                | Inr st' \<Rightarrow> Inr (st'\<lparr>round_i := round_i st' + 1\<rparr>))))"

lemma for_body_frame:
  assumes "for_body rnd k st = Inr st'"
  shows "files_per_kind st' = files_per_kind st \<and> round_i st' = round_i st \<and>
         (not_empty st' \<longrightarrow> not_empty st \<or> 0 < files_per_kind st)"
  using assms
  by (auto simp: for_body_def Let_def split: if_splits option.splits sum.splits)

lemma for_kinds_frame:
  "for_kinds rnd ks st = Inr st' \<Longrightarrow>
     files_per_kind st' = files_per_kind st \<and> round_i st' = round_i st \<and>
     (not_empty st' \<longrightarrow> not_empty st \<or> 0 < files_per_kind st)"
proof (induction ks arbitrary: st)
  case Nil
  then show ?case by simp
next
  case (Cons k ks)
  from Cons.prems obtain s where s: "for_body rnd k st = Inr s" and r: "for_kinds rnd ks s = Inr st'"
    by (auto split: sum.splits)
  from for_body_frame[OF s] Cons.IH[OF r] show ?case by auto
qed

lemma while_body_frame:
  assumes "while_body rnd budget all_kinds st = Inr st'"
  shows "round_i st' = round_i st + 1"
    and "not_empty st' \<Longrightarrow> 0 < files_per_kind st'"
    and "0 < round_i st \<Longrightarrow> files_per_kind st' = budget div int (length all_kinds) div round_i st"
    and "\<not> 0 < round_i st \<Longrightarrow> files_per_kind st' = budget div int (length all_kinds)"
  using assms
  by (auto simp: while_body_def floordiv_def split: if_splits sum.splits dest!: for_kinds_frame)

text \<open>
  The \<open>while\<close> loop (lines 1061-1085). A round that leaves \<open>not_empty\<close> set has a positive
  quota, so its index is at most \<open>budget // len(all_kinds)\<close>: the distance of the index to
  that bound decreases.
\<close>

definition loop_measure :: "int \<Rightarrow> string list \<Rightarrow> 'a alloc_state \<Rightarrow> nat" where
  "loop_measure budget all_kinds st =
     (if files_left st > 0 \<and> not_empty st
      then nat (budget div int (length all_kinds) + 2 - round_i st) + 1 else 0)"

function while_loop ::
  "(nat \<Rightarrow> nat) \<Rightarrow> int \<Rightarrow> string list \<Rightarrow> 'a alloc_state \<Rightarrow> py_error + 'a alloc_state" where
  "while_loop rnd budget all_kinds st =
     (if files_left st > 0 \<and> not_empty st then
        (if length all_kinds = 0 then Inr st
         else (case while_body rnd budget all_kinds st of
                 Inl e \<Rightarrow> Inl e
               | Inr st' \<Rightarrow> while_loop rnd budget all_kinds st'))
      else Inr st)"
  by pat_completeness auto
termination
proof (relation "measure (\<lambda>(rnd, budget, all_kinds, st). loop_measure budget all_kinds st)", goal_cases)
  case 1
  show ?case by simp
next
  case (2 rnd budget all_kinds st st')
  have i': "round_i st' = round_i st + 1"
    using while_body_frame(1)[OF 2(3)] .
  show ?case
  proof (cases "files_left st' > 0 \<and> not_empty st'")
    case False
    with 2(1) show ?thesis by (auto simp: loop_measure_def)
  next
    case True
    then have pos: "0 < files_per_kind st'"
      using while_body_frame(2)[OF 2(3)] by simp
    have "round_i st \<le> budget div int (length all_kinds)"
    proof (cases "0 < round_i st")
      case True
      with pos while_body_frame(3)[OF 2(3)] show ?thesis
        by (simp add: pos_imp_zdiv_pos_iff)
    next
      case False
      with pos while_body_frame(4)[OF 2(3)] show ?thesis by simp
    qed
    with True 2(1) i' show ?thesis by (auto simp: loop_measure_def)
  qed
qed

declare while_loop.simps [simp del]

lemma while_loop_stop:
  "\<not> (files_left st > 0 \<and> not_empty st) \<or> all_kinds = [] \<Longrightarrow>
     while_loop rnd budget all_kinds st = Inr st"
  by (subst while_loop.simps) auto

lemma while_loop_step:
  "files_left st > 0 \<Longrightarrow> not_empty st \<Longrightarrow> all_kinds \<noteq> [] \<Longrightarrow>
     while_loop rnd budget all_kinds st =
       (case while_body rnd budget all_kinds st of
          Inl e \<Rightarrow> Inl e
        | Inr st' \<Rightarrow> while_loop rnd budget all_kinds st')"
  by (subst while_loop.simps) simp

text \<open>
  The state before the loop (lines 1028-1030 and 1050-1059). \<open>files_per_kind\<close> is not yet
  bound there; the first round assigns it before any use.
\<close>

definition initial_state :: "int \<Rightarrow> string list \<Rightarrow> 'a sample_map \<Rightarrow> 'a alloc_state" where
  "initial_state budget all_kinds sample_map =
     \<lparr>files_left = budget, files_inserted = 0, files_per_kind = 0, round_i = 1,
      not_empty = True,
      remaining_samples = filter (\<lambda>(k, v). k \<in> set all_kinds) sample_map,
      selected_files = map (\<lambda>(k, v). (k, [])) sample_map,
      rng = 0\<rparr>"

definition allocate ::
  "(nat \<Rightarrow> nat) \<Rightarrow> int \<Rightarrow> string list \<Rightarrow> 'a sample_map \<Rightarrow> py_error + 'a alloc_state" where
  "allocate rnd budget all_kinds sample_map =
     while_loop rnd budget all_kinds (initial_state budget all_kinds sample_map)"

text \<open>The selection and allocation of \<open>create_sample_pack\<close>, with the program's constants.\<close>

definition create_sample_pack_plan ::
  "(nat \<Rightarrow> nat) \<Rightarrow> 'a sample_map \<Rightarrow> py_error + 'a alloc_state" where
  "create_sample_pack_plan rnd sample_map =
     allocate rnd MAX_FILES_PER_PACK
       (selected_subfolders MAX_FOLDERS_PER_PACK sample_map) sample_map"

text \<open>\<open>sum(len(files) for files in plan.values())\<close>.\<close>

definition plan_total :: "'a sample_map \<Rightarrow> int" where
  "plan_total plan = sum_list (map (\<lambda>(k, files). int (length files)) plan)"

section \<open>Quantities of the specification, and example inputs\<close>

text \<open>
  The quota the specification words for a round: the budget still left, shared among the
  categories whose remaining pool is non-empty, divided by the round index.
\<close>

definition nonempty_count :: "string list \<Rightarrow> 'a alloc_state \<Rightarrow> int" where
  "nonempty_count all_kinds st =
     int (length (filter (\<lambda>k. dict_get (remaining_samples st) k [] \<noteq> []) all_kinds))"

definition spec_round_quota :: "string list \<Rightarrow> 'a alloc_state \<Rightarrow> int" where
  "spec_round_quota all_kinds st = (files_left st div nonempty_count all_kinds st) div round_i st"

text \<open>Ten categories: nine with one file, one with 26 files.\<close>

definition ten_pools :: "nat sample_map" where
  "ten_pools = [(''Kick'', [0]), (''Snare'', [1]), (''HiHat'', [2]), (''Synth'', [3]),
     (''Bass'', [4]), (''Perc'', [5]), (''Tom'', [6]), (''Cymbal'', [7]), (''Vocal'', [8]),
     (''Chord'', [100 ..< 126])]"

text \<open>
  The quota the program uses in round 2 on \<open>ten_pools\<close>, beside the specification's quota
  for that round computed from the state round 1 leaves.
\<close>

definition second_round_quotas :: "(int \<times> int) option" where
  "second_round_quotas =
     (let kinds = selected_subfolders MAX_FOLDERS_PER_PACK ten_pools in
      case while_body (\<lambda>_. 0) MAX_FILES_PER_PACK kinds
             (initial_state MAX_FILES_PER_PACK kinds ten_pools) of
        Inl e \<Rightarrow> None
      | Inr st1 \<Rightarrow>
          (case while_body (\<lambda>_. 0) MAX_FILES_PER_PACK kinds st1 of
             Inl e \<Rightarrow> None
           | Inr st2 \<Rightarrow> Some (files_per_kind st2, spec_round_quota kinds st1)))"

text \<open>\<open>ceil(log2(n))\<close>: the least \<open>k\<close> with \<open>n \<le> 2 ^ k\<close>.\<close>

fun ceil_log2 :: "nat \<Rightarrow> nat" where
  "ceil_log2 n = (if n \<le> 1 then 0 else Suc (ceil_log2 ((n + 1) div 2)))"

declare ceil_log2.simps [simp del]

text \<open>The rounds a run executed: the loop index starts at 1 and grows by one per round.\<close>

definition rounds_executed :: "py_error + 'a alloc_state \<Rightarrow> int option" where
  "rounds_executed r = (case r of Inl e \<Rightarrow> None | Inr st \<Rightarrow> Some (round_i st - 1))"

text \<open>Twelve categories: eleven with one file, one with 69 files.\<close>

definition twelve_pools :: "nat sample_map" where
  "twelve_pools = [(''Kick'', [0]), (''Snare'', [1]), (''HiHat'', [2]), (''Synth'', [3]),
     (''Bass'', [4]), (''Perc'', [5]), (''Tom'', [6]), (''Cymbal'', [7]), (''Vocal'', [8]),
     (''Third'', [9]), (''Fifth'', [10]), (''Chord'', [100 ..< 169])]"

text \<open>The plan a run returns.\<close>

definition plan_of :: "py_error + 'a alloc_state \<Rightarrow> py_error + 'a sample_map" where
  "plan_of r = (case r of Inl e \<Rightarrow> Inl e | Inr st \<Rightarrow> Inr (selected_files st))"

text \<open>
  Twenty-three categories, twenty-two of them with a file; the priority categories come
  last and \<open>HiHat\<close> has no file.
\<close>

definition many_pools :: "nat sample_map" where
  "many_pools = [(''Percussion'', [0]), (''Tom'', [1]), (''Cymbal'', [2]), (''Vocal'', [3]),
     (''Chord'', [4]), (''Third'', [5]), (''Fourth'', [6]), (''Fifth'', [7]), (''XDrum'', [8]),
     (''Misc'', [9]), (''Random'', [10]), (''Clap'', [11]), (''Shaker'', [12]), (''Metal'', [13]),
     (''Blip'', [14]), (''Noise'', [15]), (''Stab'', [16]), (''Mallet'', [17]), (''Guitar'', [18]),
     (''HiHat'', []), (''Kick'', [19]), (''Bass'', [20]), (''Snare'', [21])]"

text \<open>The candidate supply: the files in the pools of the admitted categories.\<close>

definition total_supply :: "string list \<Rightarrow> 'a sample_map \<Rightarrow> int" where
  "total_supply all_kinds sample_map = plan_total (filter (\<lambda>(k, v). k \<in> set all_kinds) sample_map)"

section \<open>Properties of the allocation loop\<close>

subsection \<open>Sampling\<close>

lemma length_draw: "k \<le> length xs \<Longrightarrow> length (draw rnd pos xs k) = k"
  by (induction k arbitrary: xs pos) (auto simp: Let_def)

lemma mset_draw: "mset (draw rnd pos xs k) \<subseteq># mset xs"
proof (induction k arbitrary: xs pos)
  case 0
  show ?case by simp
next
  case (Suc k)
  show ?case
  proof (cases "xs = []")
    case True
    then show ?thesis by simp
  next
    case False
    define j where "j = rnd pos mod length xs"
    have j: "j < length xs" using False by (simp add: j_def)
    have split: "mset xs = add_mset (xs ! j) (mset (take j xs @ drop (Suc j) xs))"
      using id_take_nth_drop[OF j] by (metis mset.simps(2) mset_append union_mset_add_mset_right)
    have "draw rnd pos xs (Suc k) = xs ! j # draw rnd (Suc pos) (take j xs @ drop (Suc j) xs) k"
      using False by (simp add: j_def Let_def)
    with Suc.IH[of "Suc pos" "take j xs @ drop (Suc j) xs"] split show ?thesis
      by (simp del: mset_append)
  qed
qed

lemma plan_total_map_entry:
  "map_of plan k = Some l \<Longrightarrow>
     plan_total (AList.map_entry k (\<lambda>l. l @ xs) plan) = plan_total plan + int (length xs)"
  by (induction plan) (auto simp: plan_total_def split: if_splits)

lemma plan_total_update:
  "map_of plan k = Some l \<Longrightarrow>
     plan_total (AList.update k v plan) = plan_total plan - int (length l) + int (length v)"
  by (induction plan) (auto simp: plan_total_def split: if_splits)

lemma for_body_skip:
  "dict_get (remaining_samples st) k [] = [] \<or> files_per_kind st \<le> 0 \<Longrightarrow> for_body rnd k st = Inr st"
  by (auto simp: for_body_def Let_def)

lemma for_body_draw:
  assumes "dict_get (remaining_samples st) k [] = kv" "kv \<noteq> []" "0 < files_per_kind st"
    and "0 \<le> files_left st" "map_of (selected_files st) k = Some l"
  shows "for_body rnd k st =
     Inr (let n = min (min (files_per_kind st) (int (length kv))) (files_left st) in
          if 0 < n then
            st\<lparr>not_empty := True, files_left := files_left st - n,
               remaining_samples :=
                 AList.update k (filter (\<lambda>x. x \<notin> set (draw rnd (rng st) kv (nat n))) kv)
                   (remaining_samples st),
               selected_files :=
                 AList.map_entry k (\<lambda>l. l @ draw rnd (rng st) kv (nat n)) (selected_files st),
               files_inserted := files_inserted st + n, rng := rng st + nat n\<rparr>
          else st\<lparr>not_empty := True, files_left := 0\<rparr>)"
proof -
  let ?s = "min (files_per_kind st) (int (length kv))"
  have s: "0 < ?s" using assms(2,3) by simp
  show ?thesis
  proof (cases "files_left st - ?s < 0")
    case True
    then have n: "min ?s (files_left st) = files_left st" by linarith
    have "?s + (files_left st - ?s) = files_left st" by simp
    with True assms s n show ?thesis
      by (simp add: for_body_def Let_def random_sample_def del: min_less_iff_conj)
  next
    case False
    then have n: "min ?s (files_left st) = ?s" by linarith
    with False assms s show ?thesis
      by (simp add: for_body_def Let_def random_sample_def del: min_less_iff_conj)
  qed
qed


lemma mset_draw_filter:
  "mset (draw rnd pos xs k) + mset (filter (\<lambda>x. x \<notin> set (draw rnd pos xs k)) xs) \<subseteq># mset xs"
proof -
  let ?S = "draw rnd pos xs k"
  let ?F = "filter_mset (\<lambda>x. x \<notin> set ?S) (mset xs)"
  have "filter_mset (\<lambda>x. x \<in> set ?S) (mset ?S) = mset ?S"
    by (simp add: filter_mset_eq_conv)
  moreover have "filter_mset (\<lambda>x. x \<in> set ?S) (mset ?S) \<subseteq># filter_mset (\<lambda>x. x \<in> set ?S) (mset xs)"
    by (rule multiset_filter_mono) (rule mset_draw)
  ultimately have "mset ?S \<subseteq># filter_mset (\<lambda>x. x \<in> set ?S) (mset xs)"
    by simp
  then have "mset ?S + ?F \<subseteq># filter_mset (\<lambda>x. x \<in> set ?S) (mset xs) + ?F"
    by (rule mset_subset_eq_mono_add) simp
  also have "\<dots> = mset xs"
    by (rule multiset_partition[symmetric])
  finally show ?thesis by (simp only: mset_filter)
qed

lemma length_draw_filter:
  "k \<le> length xs \<Longrightarrow> length (filter (\<lambda>x. x \<notin> set (draw rnd pos xs k)) xs) + k \<le> length xs"
  using size_mset_mono[OF mset_draw_filter[of rnd pos xs k]]
  by (simp add: length_draw del: mset_filter)

lemma dict_get_update:
  "dict_get (AList.update k v d) k' dflt = (if k' = k then v else dict_get d k' dflt)"
  by (simp add: dict_get_def update_conv')

lemma dict_get_map_entry:
  "dict_get (AList.map_entry k f d) k' [] =
     (if k' = k then (case map_of d k of None \<Rightarrow> [] | Some v \<Rightarrow> f v) else dict_get d k' [])"
  by (simp add: dict_get_def map_of_map_entry split: option.splits)

text \<open>
  What every reachable state of the loop satisfies: the budget accounting, that the plan
  holds exactly the files counted, that every category with a remaining pool has a slot in
  the plan, that chosen and remaining files of a category are together drawn from its pool,
  and that chosen and remaining files never outnumber the admitted supply.
\<close>

definition alloc_inv :: "int \<Rightarrow> 'a sample_map \<Rightarrow> string list \<Rightarrow> 'a alloc_state \<Rightarrow> bool" where
  "alloc_inv budget sample_map all_kinds st \<longleftrightarrow>
     0 \<le> files_left st \<and> files_inserted st + files_left st = budget \<and>
     plan_total (selected_files st) = files_inserted st \<and>
     (\<forall>k. map_of (remaining_samples st) k \<noteq> None \<longrightarrow> map_of (selected_files st) k \<noteq> None) \<and>
     (\<forall>k. mset (dict_get (selected_files st) k []) + mset (dict_get (remaining_samples st) k [])
            \<subseteq># mset (dict_get sample_map k [])) \<and>
     plan_total (selected_files st) + plan_total (remaining_samples st)
       \<le> plan_total (filter (\<lambda>(k, v). k \<in> set all_kinds) sample_map)"

lemma for_body_inv:
  assumes inv: "alloc_inv budget sample_map all_kinds st"
  shows "\<exists>st'. for_body rnd k st = Inr st' \<and> alloc_inv budget sample_map all_kinds st'"
proof (cases "dict_get (remaining_samples st) k [] = [] \<or> files_per_kind st \<le> 0")
  case True
  then show ?thesis using inv for_body_skip by metis
next
  case False
  define kv where "kv = dict_get (remaining_samples st) k []"
  have kv: "kv \<noteq> []" and fpk: "0 < files_per_kind st" using False by (auto simp: kv_def)
  have rem: "map_of (remaining_samples st) k = Some kv"
    using kv by (auto simp: kv_def dict_get_def split: option.splits)
  with inv obtain l where l: "map_of (selected_files st) k = Some l"
    by (auto simp: alloc_inv_def)
  have fl: "0 \<le> files_left st" using inv by (simp add: alloc_inv_def)
  define n where "n = min (min (files_per_kind st) (int (length kv))) (files_left st)"
  have n0: "0 \<le> n" "n \<le> int (length kv)" "n \<le> files_left st"
    using fpk fl by (auto simp: n_def)
  note eq = for_body_draw[OF kv_def[symmetric] kv fpk fl l, of rnd, folded n_def]
  show ?thesis
  proof (cases "0 < n")
    case False
    with n0 have "n = 0" by simp
    moreover have "0 < int (length kv)" using kv by simp
    ultimately have "files_left st = 0" using fpk fl unfolding n_def by linarith
    moreover have "for_body rnd k st = Inr (st\<lparr>not_empty := True, files_left := 0\<rparr>)"
      using eq False by (simp add: Let_def)
    ultimately show ?thesis using inv by (simp add: alloc_inv_def)
  next
    case True
    define S where "S = draw rnd (rng st) kv (nat n)"
    define st' where "st' = st\<lparr>not_empty := True, files_left := files_left st - n,
               remaining_samples :=
                 AList.update k (filter (\<lambda>x. x \<notin> set S) kv) (remaining_samples st),
               selected_files := AList.map_entry k (\<lambda>l. l @ S) (selected_files st),
               files_inserted := files_inserted st + n, rng := rng st + nat n\<rparr>"
    have res: "for_body rnd k st = Inr st'"
      using eq True by (simp add: Let_def st'_def S_def)
    have lenS: "int (length S) = n" using n0 True by (simp add: S_def length_draw)
    have lenF: "int (length (filter (\<lambda>x. x \<notin> set S) kv)) + n \<le> int (length kv)"
      using length_draw_filter[of "nat n" kv rnd "rng st"] n0 unfolding S_def by linarith
    have msub: "mset S + mset (filter (\<lambda>x. x \<notin> set S) kv) \<subseteq># mset kv"
      unfolding S_def by (rule mset_draw_filter)
    have a: "0 \<le> files_left st'" "files_inserted st' + files_left st' = budget"
      using inv n0 by (auto simp: st'_def alloc_inv_def)
    have b: "plan_total (selected_files st') = files_inserted st'"
      using inv l lenS by (simp add: st'_def alloc_inv_def plan_total_map_entry)
    have c: "\<forall>k'. map_of (remaining_samples st') k' \<noteq> None \<longrightarrow> map_of (selected_files st') k' \<noteq> None"
      using inv l by (auto simp: st'_def alloc_inv_def update_conv' map_of_map_entry)
    have d: "mset (dict_get (selected_files st') k' []) + mset (dict_get (remaining_samples st') k' [])
            \<subseteq># mset (dict_get sample_map k' [])" for k'
    proof (cases "k' = k")
      case False
      with inv show ?thesis by (simp add: st'_def alloc_inv_def dict_get_update dict_get_map_entry)
    next
      case True
      have "mset (l @ S) + mset (filter (\<lambda>x. x \<notin> set S) kv) \<subseteq># mset l + mset kv"
        using msub by (simp add: add.assoc del: mset_filter)
      also have "\<dots> \<subseteq># mset (dict_get sample_map k [])"
        using inv l rem by (auto simp: alloc_inv_def dict_get_def dest: spec[of _ k])
      finally show ?thesis
        using True l by (simp add: st'_def dict_get_update dict_get_map_entry del: mset_filter mset_append)
    qed
    have e: "plan_total (selected_files st') + plan_total (remaining_samples st')
       \<le> plan_total (filter (\<lambda>(k, v). k \<in> set all_kinds) sample_map)"
      using inv l rem lenS lenF
      by (simp add: st'_def alloc_inv_def plan_total_map_entry plan_total_update)
    from a b c d e have "alloc_inv budget sample_map all_kinds st'"
      unfolding alloc_inv_def by blast
    with res show ?thesis by blast
  qed
qed


lemma for_kinds_inv:
  "alloc_inv budget sample_map all_kinds st \<Longrightarrow>
     \<exists>st'. for_kinds rnd ks st = Inr st' \<and> alloc_inv budget sample_map all_kinds st'"
proof (induction ks arbitrary: st)
  case Nil
  then show ?case by simp
next
  case (Cons k ks)
  from for_body_inv[OF Cons.prems, where rnd = rnd and k = k] obtain s
    where s: "for_body rnd k st = Inr s" "alloc_inv budget sample_map all_kinds s" by blast
  from Cons.IH[OF s(2)] s(1) show ?case by simp
qed

lemma alloc_inv_frame:
  "alloc_inv budget sample_map all_kinds st \<Longrightarrow>
     alloc_inv budget sample_map all_kinds (st\<lparr>files_per_kind := f, not_empty := b\<rparr>)"
  "alloc_inv budget sample_map all_kinds st \<Longrightarrow>
     alloc_inv budget sample_map all_kinds (st\<lparr>round_i := j\<rparr>)"
  by (simp_all add: alloc_inv_def)

lemma while_body_inv:
  assumes "alloc_inv budget sample_map all_kinds st" "kinds \<noteq> []"
  shows "\<exists>st'. while_body rnd budget kinds st = Inr st' \<and> alloc_inv budget sample_map all_kinds st'"
proof -
  define fpk where "fpk = (if round_i st > 0 then budget div int (length kinds) div round_i st
                           else budget div int (length kinds))"
  from for_kinds_inv[OF alloc_inv_frame(1)[OF assms(1), where f = fpk and b = False],
      where rnd = rnd and ks = kinds] obtain s
    where s: "for_kinds rnd kinds (st\<lparr>files_per_kind := fpk, not_empty := False\<rparr>) = Inr s"
      "alloc_inv budget sample_map all_kinds s" by blast
  have "while_body rnd budget kinds st = Inr (s\<lparr>round_i := round_i s + 1\<rparr>)"
    using assms(2) s(1) by (auto simp: while_body_def floordiv_def fpk_def)
  with alloc_inv_frame(2)[OF s(2)] show ?thesis by blast
qed

lemma while_loop_inv:
  "alloc_inv budget sample_map all_kinds st \<Longrightarrow>
     \<exists>st'. while_loop rnd budget kinds st = Inr st' \<and> alloc_inv budget sample_map all_kinds st'"
proof (induction rnd budget kinds st rule: while_loop.induct)
  case (1 rnd budget kinds st)
  show ?case
  proof (cases "files_left st > 0 \<and> not_empty st \<and> kinds \<noteq> []")
    case False
    then have "while_loop rnd budget kinds st = Inr st"
      by (intro while_loop_stop) auto
    with "1.prems" show ?thesis by simp
  next
    case True
    from while_body_inv[OF "1.prems", where kinds = kinds and rnd = rnd] True obtain s
      where s: "while_body rnd budget kinds st = Inr s" "alloc_inv budget sample_map all_kinds s"
      by blast
    from True have "while_loop rnd budget kinds st = while_loop rnd budget kinds s"
      by (simp add: while_loop_step s(1))
    with "1.IH"[OF _ _ s(1) s(2)] True show ?thesis by simp
  qed
qed

lemma map_of_filter_keys:
  "map_of (filter (\<lambda>(k, v). P k) al) k = (if P k then map_of al k else None)"
  by (induction al) auto

lemma map_of_map_empty:
  "map_of (map (\<lambda>(k, v). (k, [])) al) k = map_option (\<lambda>_. []) (map_of al k)"
  by (induction al) auto

lemma plan_total_map_empty: "plan_total (map (\<lambda>(k, v). (k, [])) al) = 0"
  by (induction al) (auto simp: plan_total_def)

lemma initial_state_inv:
  "0 \<le> budget \<Longrightarrow> alloc_inv budget sample_map all_kinds (initial_state budget all_kinds sample_map)"
  by (auto simp: alloc_inv_def initial_state_def plan_total_map_empty map_of_filter_keys
      map_of_map_empty dict_get_def split: option.splits if_splits)

lemma allocate_inv:
  assumes "0 \<le> budget"
  shows "\<exists>st. allocate rnd budget all_kinds sample_map = Inr st \<and>
              alloc_inv budget sample_map all_kinds st"
  unfolding allocate_def by (rule while_loop_inv[OF initial_state_inv[OF assms]])

subsection \<open>The budget bound\<close>

text \<open>
  C1. For every mapping of categories to pools and every random source, the plan that
  \<open>create_sample_pack\<close> builds totals at most \<open>MAX_FILES_PER_PACK\<close> = 255 files: the
  loop returns without raising, the remaining budget never goes below zero, and the plan
  holds exactly the part of the budget that was used.
\<close>

theorem budget_bound:
  "\<exists>st. create_sample_pack_plan rnd sample_map = Inr st \<and>
        plan_total (selected_files st) \<le> MAX_FILES_PER_PACK \<and>
        MAX_FILES_PER_PACK = 255 \<and>
        0 \<le> files_left st \<and>
        plan_total (selected_files st) = MAX_FILES_PER_PACK - files_left st"
proof -
  have "(0::int) \<le> MAX_FILES_PER_PACK" by (simp add: MAX_FILES_PER_PACK_def)
  from allocate_inv[OF this, of rnd "selected_subfolders MAX_FOLDERS_PER_PACK sample_map" sample_map]
  obtain st where st: "create_sample_pack_plan rnd sample_map = Inr st"
    and inv: "alloc_inv MAX_FILES_PER_PACK sample_map
                (selected_subfolders MAX_FOLDERS_PER_PACK sample_map) st"
    unfolding create_sample_pack_plan_def by blast
  from inv have "0 \<le> files_left st"
    and "plan_total (selected_files st) = MAX_FILES_PER_PACK - files_left st"
    by (auto simp: alloc_inv_def)
  with st show ?thesis by (auto simp: MAX_FILES_PER_PACK_def)
qed

subsection \<open>Totality, rounds and progress\<close>

lemma distinct_mset_subseteq: "mset xs \<subseteq># mset ys \<Longrightarrow> distinct ys \<Longrightarrow> distinct xs"
proof -
  assume s: "mset xs \<subseteq># mset ys" and d: "distinct ys"
  have "count (mset xs) a \<le> 1" for a
    using mset_subset_eq_count[OF s, of a] d
    by (metis distinct_count_atmost_1 le_trans zero_le_one order_refl)
  then show ?thesis
    by (metis count_greater_eq_one_iff distinct_count_atmost_1 le_antisym le_zero_eq not_in_iff set_mset_mset)
qed

lemma allocate_total: "\<exists>st. allocate rnd budget all_kinds sample_map = Inr st"
proof (cases "0 \<le> budget")
  case True
  from allocate_inv[OF this] show ?thesis by blast
next
  case False
  then show ?thesis by (simp add: allocate_def initial_state_def while_loop_stop)
qed

lemma plan_total_nonneg: "0 \<le> plan_total plan"
  by (induction plan) (auto simp: plan_total_def)

lemma while_loop_rounds:
  "while_loop rnd budget kinds st = Inr st' \<Longrightarrow>
     round_i st' \<le> (if files_left st > 0 \<and> not_empty st \<and> kinds \<noteq> []
                     then max (round_i st + 1) (budget div int (length kinds) + 2)
                     else round_i st)"
proof (induction rnd budget kinds st rule: while_loop.induct)
  case (1 rnd budget kinds st)
  show ?case
  proof (cases "files_left st > 0 \<and> not_empty st \<and> kinds \<noteq> []")
    case False
    then have "while_loop rnd budget kinds st = Inr st"
      by (intro while_loop_stop) auto
    with "1.prems" False show ?thesis by auto
  next
    case True
    then have "while_loop rnd budget kinds st =
       (case while_body rnd budget kinds st of Inl e \<Rightarrow> Inl e
        | Inr s \<Rightarrow> while_loop rnd budget kinds s)"
      by (simp add: while_loop_step)
    with "1.prems" obtain s where s: "while_body rnd budget kinds st = Inr s"
      and r: "while_loop rnd budget kinds s = Inr st'"
      by (auto split: sum.splits)
    note IH = "1.IH"[OF _ _ s r]
    have i: "round_i s = round_i st + 1" using while_body_frame(1)[OF s] .
    show ?thesis
    proof (cases "files_left s > 0 \<and> not_empty s \<and> kinds \<noteq> []")
      case False
      with IH True i show ?thesis by auto
    next
      case c: True
      then have pos: "0 < files_per_kind s" using while_body_frame(2)[OF s] by simp
      have "round_i st \<le> budget div int (length kinds)"
      proof (cases "0 < round_i st")
        case True
        with pos while_body_frame(3)[OF s] show ?thesis by (simp add: pos_imp_zdiv_pos_iff)
      next
        case False
        with pos while_body_frame(4)[OF s] show ?thesis by simp
      qed
      with IH True c i show ?thesis by auto
    qed
  qed
qed

lemma for_body_progress:
  assumes r: "for_body rnd k st = Inr st'" and fl: "0 \<le> files_left st"
  shows "0 \<le> files_left st' \<and> files_inserted st \<le> files_inserted st' \<and>
         (files_inserted st' = files_inserted st \<longrightarrow>
            files_left st' = files_left st \<and> not_empty st' = not_empty st \<or> files_left st' = 0)"
proof (cases "dict_get (remaining_samples st) k [] = [] \<or> files_per_kind st \<le> 0")
  case True
  from for_body_skip[OF True, of rnd] r have "st' = st" by simp
  with fl show ?thesis by simp
next
  case False
  define kv where "kv = dict_get (remaining_samples st) k []"
  define s where "s = min (files_per_kind st) (int (length kv))"
  have kv: "kv \<noteq> []" and s: "0 < s" using False by (auto simp: kv_def s_def)
  show ?thesis
  proof (cases "files_left st - s < 0")
    case True
    show ?thesis
    proof (cases "0 < files_left st")
      case pos: True
      have "s + (files_left st - s) = files_left st" by simp
      with r kv s True pos show ?thesis
        unfolding for_body_def Let_def kv_def[symmetric] s_def[symmetric]
        by (auto split: sum.splits option.splits)
    next
      case zero: False
      with fl have z: "files_left st = 0" by simp
      with r kv s True show ?thesis
        unfolding for_body_def Let_def kv_def[symmetric] s_def[symmetric]
        by (auto split: sum.splits option.splits)
    qed
  next
    case False
    with r kv s show ?thesis
      unfolding for_body_def Let_def kv_def[symmetric] s_def[symmetric]
      by (auto split: sum.splits option.splits)
  qed
qed

lemma for_kinds_progress:
  "for_kinds rnd ks st = Inr st' \<Longrightarrow> 0 \<le> files_left st \<Longrightarrow>
     0 \<le> files_left st' \<and> files_inserted st \<le> files_inserted st' \<and>
     (files_inserted st' = files_inserted st \<longrightarrow>
        files_left st' = files_left st \<and> not_empty st' = not_empty st \<or> files_left st' = 0)"
proof (induction ks arbitrary: st)
  case Nil
  then show ?case by simp
next
  case (Cons k ks)
  from Cons.prems obtain s where s: "for_body rnd k st = Inr s" and r: "for_kinds rnd ks s = Inr st'"
    by (auto split: sum.splits)
  from for_body_progress[OF s Cons.prems(2)] have a: "0 \<le> files_left s" by simp
  from for_body_progress[OF s Cons.prems(2)] Cons.IH[OF r a] show ?case
    by auto
qed

lemma idle_round_ends_loop:
  assumes "0 < files_left st" "while_body rnd budget kinds st = Inr st'"
    and "files_inserted st' = files_inserted st"
  shows "while_loop rnd budget kinds st' = Inr st'"
proof -
  from assms(2) obtain fpk s where s: "for_kinds rnd kinds (st\<lparr>files_per_kind := fpk, not_empty := False\<rparr>) = Inr s"
    and st': "st' = s\<lparr>round_i := round_i s + 1\<rparr>"
    by (auto simp: while_body_def floordiv_def split: if_splits sum.splits)
  from for_kinds_progress[OF s] assms(1,3) st'
  have "\<not> not_empty s \<or> files_left s = 0" by auto
  with st' show ?thesis by (intro while_loop_stop) auto
qed

subsection \<open>The logarithm of the specification's bound\<close>

lemma ceil_log2_upper: "n \<le> 2 ^ ceil_log2 n"
proof (induction n rule: ceil_log2.induct)
  case (1 n)
  show ?case
  proof (cases "n \<le> 1")
    case True
    then show ?thesis by (subst ceil_log2.simps) simp
  next
    case False
    from "1.IH"[OF False] have "(n + 1) div 2 \<le> 2 ^ ceil_log2 ((n + 1) div 2)" .
    then have "n \<le> 2 * 2 ^ ceil_log2 ((n + 1) div 2)" by linarith
    with False show ?thesis by (subst ceil_log2.simps) simp
  qed
qed

lemma ceil_log2_least: "n \<le> 2 ^ k \<Longrightarrow> ceil_log2 n \<le> k"
proof (induction n arbitrary: k rule: ceil_log2.induct)
  case (1 n)
  show ?case
  proof (cases "n \<le> 1")
    case True
    then show ?thesis by (subst ceil_log2.simps) simp
  next
    case False
    with "1.prems" obtain k' where k: "k = Suc k'" by (cases k) auto
    with "1.prems" have "(n + 1) div 2 \<le> 2 ^ k'" by simp
    from "1.IH"[OF False this] False k show ?thesis by (subst ceil_log2.simps) simp
  qed
qed

subsection \<open>The quota of a round\<close>

text \<open>
  C3 (as amended). In every round \<open>i \<ge> 1\<close> the per-category quota is
  \<open>floor(floor(budget / number of admitted categories) / i)\<close>: the round runs the
  \<open>for\<close> loop with exactly this quota and leaves it in \<open>files_per_kind\<close>. The budget is
  the constant total budget and the count is the constant number of admitted categories;
  neither the budget still left nor the number of non-empty remaining pools enters.
\<close>

theorem round_quota:
  assumes "all_kinds \<noteq> []" and "0 < round_i st"
  shows "while_body rnd budget all_kinds st =
           (case for_kinds rnd all_kinds
                   (st\<lparr>files_per_kind := (budget div int (length all_kinds)) div round_i st,
                       not_empty := False\<rparr>) of
              Inl e \<Rightarrow> Inl e
            | Inr st' \<Rightarrow> Inr (st'\<lparr>round_i := round_i st' + 1\<rparr>)) \<and>
         (\<forall>st'. while_body rnd budget all_kinds st = Inr st' \<longrightarrow>
            files_per_kind st' = (budget div int (length all_kinds)) div round_i st \<and>
            round_i st' = round_i st + 1)"
proof -
  have "while_body rnd budget all_kinds st =
           (case for_kinds rnd all_kinds
                   (st\<lparr>files_per_kind := (budget div int (length all_kinds)) div round_i st,
                       not_empty := False\<rparr>) of
              Inl e \<Rightarrow> Inl e
            | Inr st' \<Rightarrow> Inr (st'\<lparr>round_i := round_i st' + 1\<rparr>))"
    using assms by (simp add: while_body_def floordiv_def)
  moreover have "files_per_kind st' = (budget div int (length all_kinds)) div round_i st \<and>
            round_i st' = round_i st + 1"
    if "while_body rnd budget all_kinds st = Inr st'" for st'
    using while_body_frame(1,3)[OF that] assms(2) by simp
  ultimately show ?thesis by blast
qed

theorem round_quota_witness:
  "[''Kick''] \<noteq> [] \<and>
   0 < round_i (initial_state MAX_FILES_PER_PACK [''Kick''] [(''Kick'', [1::nat])]) \<and>
   (\<exists>st'. while_body (\<lambda>_. 0) MAX_FILES_PER_PACK [''Kick'']
            (initial_state MAX_FILES_PER_PACK [''Kick''] [(''Kick'', [1::nat])]) = Inr st' \<and>
          files_per_kind st' = 255 \<and> round_i st' = 2)"
proof -
  let ?st = "initial_state MAX_FILES_PER_PACK [''Kick''] [(''Kick'', [1::nat])]"
  have i: "round_i ?st = 1" by (simp add: initial_state_def)
  have "(0::int) \<le> MAX_FILES_PER_PACK" by (simp add: MAX_FILES_PER_PACK_def)
  from while_body_inv[OF initial_state_inv[OF this], where kinds = "[''Kick'']" and rnd = "\<lambda>_. 0"]
  obtain st' where st': "while_body (\<lambda>_. 0) MAX_FILES_PER_PACK [''Kick''] ?st = Inr st'"
    by blast
  from round_quota[of "[''Kick'']" ?st "\<lambda>_. 0" MAX_FILES_PER_PACK] st' i
  have "files_per_kind st' = 255 \<and> round_i st' = 2"
    by (simp add: MAX_FILES_PER_PACK_def)
  with st' i show ?thesis by auto
qed

text \<open>
  The claim as stated fails: on \<open>ten_pools\<close> round 1 leaves a budget of 221 and one
  non-empty pool, so the stated quota of round 2 is \<open>221 div 1 div 2 = 110\<close>, while the
  program uses \<open>255 div 10 div 2 = 12\<close>.
\<close>

theorem round_quota_counterexample:
  "second_round_quotas = Some (12, 110) \<and> (12::int) \<noteq> 110"
  by code_simp

subsection \<open>Files of a plan\<close>

text \<open>
  C4 (as amended). Each category's chosen files are drawn without replacement from that
  category's own pool: as a multiset they are contained in the pool. So a category whose
  pool lists no file twice has no file twice in its chosen list, and two categories whose
  pools share no file share no chosen file.
\<close>

theorem plan_drawn_from_pools:
  "\<exists>st. create_sample_pack_plan rnd sample_map = Inr st \<and>
     (\<forall>k. mset (dict_get (selected_files st) k []) \<subseteq># mset (dict_get sample_map k [])) \<and>
     (\<forall>k. distinct (dict_get sample_map k []) \<longrightarrow> distinct (dict_get (selected_files st) k [])) \<and>
     (\<forall>k k'. set (dict_get sample_map k []) \<inter> set (dict_get sample_map k' []) = {} \<longrightarrow>
        set (dict_get (selected_files st) k []) \<inter> set (dict_get (selected_files st) k' []) = {})"
proof -
  have "(0::int) \<le> MAX_FILES_PER_PACK" by (simp add: MAX_FILES_PER_PACK_def)
  from allocate_inv[OF this, of rnd "selected_subfolders MAX_FOLDERS_PER_PACK sample_map" sample_map]
  obtain st where st: "create_sample_pack_plan rnd sample_map = Inr st"
    and inv: "alloc_inv MAX_FILES_PER_PACK sample_map
                (selected_subfolders MAX_FOLDERS_PER_PACK sample_map) st"
    unfolding create_sample_pack_plan_def by blast
  have sub: "mset (dict_get (selected_files st) k []) \<subseteq># mset (dict_get sample_map k [])" for k
  proof -
    have "mset (dict_get (selected_files st) k [])
            \<subseteq># mset (dict_get (selected_files st) k []) + mset (dict_get (remaining_samples st) k [])"
      by simp
    also have "\<dots> \<subseteq># mset (dict_get sample_map k [])"
      using inv by (simp add: alloc_inv_def)
    finally show ?thesis .
  qed
  have sets: "set (dict_get (selected_files st) k []) \<subseteq> set (dict_get sample_map k [])" for k
    using set_mset_mono[OF sub[of k]] by simp
  have "distinct (dict_get (selected_files st) k [])" if "distinct (dict_get sample_map k [])" for k
    using distinct_mset_subseteq[OF sub that] .
  moreover have "set (dict_get (selected_files st) k []) \<inter> set (dict_get (selected_files st) k' []) = {}"
    if "set (dict_get sample_map k []) \<inter> set (dict_get sample_map k' []) = {}" for k k'
    using that sets[of k] sets[of k'] by blast
  ultimately show ?thesis using st sub by blast
qed

theorem plan_drawn_from_pools_witness:
  "distinct (dict_get [(''Kick'', [''/a/k1.wav'', ''/a/k2.wav'']), (''Snare'', [''/b/s1.wav''])] ''Kick'' []) \<and>
   set (dict_get [(''Kick'', [''/a/k1.wav'', ''/a/k2.wav'']), (''Snare'', [''/b/s1.wav''])] ''Kick'' []) \<inter>
   set (dict_get [(''Kick'', [''/a/k1.wav'', ''/a/k2.wav'']), (''Snare'', [''/b/s1.wav''])] ''Snare'' []) = {} \<and>
   (\<exists>st. create_sample_pack_plan (\<lambda>_. 0)
            [(''Kick'', [''/a/k1.wav'', ''/a/k2.wav'']), (''Snare'', [''/b/s1.wav''])] = Inr st \<and>
      distinct (dict_get (selected_files st) ''Kick'' []) \<and>
      set (dict_get (selected_files st) ''Kick'' []) \<inter> set (dict_get (selected_files st) ''Snare'' []) = {})"
proof -
  let ?sm = "[(''Kick'', [''/a/k1.wav'', ''/a/k2.wav'']), (''Snare'', [''/b/s1.wav''])]"
  have d: "distinct (dict_get ?sm ''Kick'' [])" by (simp add: dict_get_def)
  have i: "set (dict_get ?sm ''Kick'' []) \<inter> set (dict_get ?sm ''Snare'' []) = {}"
    by (simp add: dict_get_def)
  from plan_drawn_from_pools[of "\<lambda>_. 0" ?sm] d i show ?thesis by blast
qed

text \<open>
  The claim as stated fails: pools are neither deduplicated nor compared with each other,
  so a file listed twice in a pool, or listed in two pools, can be chosen twice.
\<close>

theorem no_duplication_counterexample:
  "plan_of (create_sample_pack_plan (\<lambda>_. 0)
      [(''Snare'', [''/lib/s.wav'', ''/lib/s.wav'']), (''XDrum'', [''/lib/s.wav''])]) =
   Inr [(''Snare'', [''/lib/s.wav'', ''/lib/s.wav'']), (''XDrum'', [''/lib/s.wav''])]"
  by code_simp

subsection \<open>Termination and the number of rounds\<close>

text \<open>
  C6 (as amended). For every admitted-category set and all pools the loop terminates and
  returns a state; it executes at most \<open>floor(budget / number of admitted categories) + 1\<close>
  rounds; and a round that inserts no file ends the loop.
\<close>

theorem loop_terminates:
  "(0 \<le> budget \<longrightarrow>
      (\<exists>st. allocate rnd budget all_kinds sample_map = Inr st \<and>
            round_i st - 1 \<le> budget div int (length all_kinds) + 1)) \<and>
   (\<forall>st st'. 0 < files_left st \<and> while_body rnd budget all_kinds st = Inr st' \<and>
        files_inserted st' = files_inserted st \<longrightarrow>
        while_loop rnd budget all_kinds st' = Inr st')"
proof -
  have "\<exists>st. allocate rnd budget all_kinds sample_map = Inr st \<and>
            round_i st - 1 \<le> budget div int (length all_kinds) + 1" if b: "0 \<le> budget"
  proof -
    from allocate_total obtain st where st: "allocate rnd budget all_kinds sample_map = Inr st"
      by blast
    have q: "0 \<le> budget div int (length all_kinds)"
      using b by (simp add: pos_imp_zdiv_nonneg_iff div_int_pos_iff)
    from while_loop_rounds[OF st[unfolded allocate_def]] q
    have "round_i st \<le> budget div int (length all_kinds) + 2"
      by (auto simp: initial_state_def split: if_splits)
    with st show ?thesis by auto
  qed
  then show ?thesis using idle_round_ends_loop by blast
qed

theorem loop_terminates_witness:
  "(0::int) \<le> 255 \<and>
   (\<exists>st. allocate (\<lambda>_. 0) 255 [''Kick''] [(''Kick'', [1::nat])] = Inr st \<and>
         round_i st - 1 \<le> 255 div int (length [''Kick'']) + 1) \<and>
   (\<exists>st'. 0 < files_left (initial_state 255 [''Kick''] [(''Kick'', [] :: nat list)]) \<and>
      while_body (\<lambda>_. 0) 255 [''Kick''] (initial_state 255 [''Kick''] [(''Kick'', [] :: nat list)])
        = Inr st' \<and>
      files_inserted st' = files_inserted (initial_state 255 [''Kick''] [(''Kick'', [] :: nat list)]) \<and>
      while_loop (\<lambda>_. 0) 255 [''Kick''] st' = Inr st')"
proof -
  have b: "(0::int) \<le> 255" by simp
  from loop_terminates[of 255 "\<lambda>_. 0" "[''Kick'']" "[(''Kick'', [1::nat])]"] b
  have A: "\<exists>st. allocate (\<lambda>_. 0) 255 [''Kick''] [(''Kick'', [1::nat])] = Inr st \<and>
         round_i st - 1 \<le> 255 div int (length [''Kick'']) + 1"
    by blast
  let ?st = "initial_state 255 [''Kick''] [(''Kick'', [] :: nat list)]"
  have pos: "0 < files_left ?st" by (simp add: initial_state_def)
  obtain st' where st': "while_body (\<lambda>_. 0) 255 [''Kick''] ?st = Inr st'"
    and same: "files_inserted st' = files_inserted ?st"
    by (simp add: while_body_def floordiv_def initial_state_def for_body_skip dict_get_def)
  from loop_terminates[of 255 "\<lambda>_. 0" "[''Kick'']" "[(''Kick'', [1::nat])]"] pos st' same
  have "while_loop (\<lambda>_. 0) 255 [''Kick''] st' = Inr st'" by blast
  with A b pos st' same show ?thesis by blast
qed

text \<open>
  The claimed bound \<open>ceil(log2(B)) + count\<close> fails: on \<open>twelve_pools\<close> the loop executes
  21 rounds, more than \<open>ceil(log2(255)) + 12 = 20\<close>.
\<close>

lemma twelve_rounds: "rounds_executed (create_sample_pack_plan (\<lambda>_. 0) twelve_pools) = Some 21"
  by code_simp

theorem round_bound_counterexample:
  "rounds_executed (create_sample_pack_plan (\<lambda>_. 0) twelve_pools) = Some 21 \<and>
   \<not> (21 \<le> ceil_log2 255 + length (selected_subfolders MAX_FOLDERS_PER_PACK twelve_pools))"
proof -
  have "ceil_log2 255 = 8" by code_simp
  moreover have "length (selected_subfolders MAX_FOLDERS_PER_PACK twelve_pools) = 12"
    by code_simp
  ultimately show ?thesis using twelve_rounds by simp
qed

section \<open>Properties of the category selection\<close>

lemma distinct_available:
  "distinct (map fst sample_map) \<Longrightarrow> distinct (available_subfolders sample_map)"
  unfolding available_subfolders_def by (rule distinct_map_filter)

lemma distinct_FILL_KEYS: "distinct FILL_KEYS"
  by (simp add: FILL_KEYS_def)

lemma length_remaining_subfolders:
  assumes "distinct (map fst sample_map)"
  shows "length (remaining_subfolders sample_map) + length (prioritized_subfolders sample_map)
           = length (available_subfolders sample_map)"
proof -
  let ?av = "available_subfolders sample_map"
  let ?pri = "prioritized_subfolders sample_map"
  have d: "distinct ?av" using assms by (rule distinct_available)
  have dp: "distinct ?pri"
    unfolding prioritized_subfolders_def using distinct_FILL_KEYS by simp
  have sub: "set ?pri \<subseteq> set ?av" by (auto simp: prioritized_subfolders_def)
  have "length (filter (\<lambda>k. k \<in> set ?pri) ?av) = card (set (filter (\<lambda>k. k \<in> set ?pri) ?av))"
    using d by (metis distinct_card distinct_filter)
  also have "set (filter (\<lambda>k. k \<in> set ?pri) ?av) = set ?pri" using sub by auto
  also have "card (set ?pri) = length ?pri" using dp by (simp add: distinct_card)
  finally have "length (filter (\<lambda>k. k \<in> set ?pri) ?av) = length ?pri" .
  moreover have "length (filter (\<lambda>k. k \<in> set ?pri) ?av) + length (filter (\<lambda>k. k \<notin> set ?pri) ?av)
      = length ?av"
    by (rule sum_length_filter_compl)
  ultimately show ?thesis by (simp add: remaining_subfolders_def)
qed

lemma length_selected_subfolders:
  assumes "distinct (map fst sample_map)"
  shows "length (selected_subfolders max_folders sample_map)
           = min (length (available_subfolders sample_map)) max_folders"
  using length_remaining_subfolders[OF assms]
  by (auto simp: selected_subfolders_def Let_def min_def)

lemma length_prioritized: "length (prioritized_subfolders sample_map) \<le> length FILL_KEYS"
  unfolding prioritized_subfolders_def by (rule length_filter_le)

lemma remaining_not_priority:
  "set (remaining_subfolders sample_map) \<inter> set FILL_KEYS = {}"
  by (auto simp: remaining_subfolders_def prioritized_subfolders_def)

text \<open>
  C5. For a sample map with \<open>P\<close> non-empty pools and folder cap \<open>M\<close> the selector admits
  exactly \<open>min P M\<close> categories. Whenever \<open>P > M\<close> (and the cap has room for the five
  priority categories, as \<open>MAX_FOLDERS_PER_PACK\<close> has) the admitted list is the priority
  categories with a non-empty pool, in priority order, followed by the other categories
  in map order until the cap is reached; so every priority category with a non-empty pool
  is admitted, ahead of every other category.
\<close>

theorem folder_bound:
  assumes "distinct (map fst sample_map)"
  shows "length (selected_subfolders max_folders sample_map)
           = min (length (available_subfolders sample_map)) max_folders \<and>
         (max_folders < length (available_subfolders sample_map) \<and> length FILL_KEYS \<le> max_folders \<longrightarrow>
            selected_subfolders max_folders sample_map =
              filter (\<lambda>k. k \<in> set (available_subfolders sample_map)) FILL_KEYS @
              take (max_folders - length (prioritized_subfolders sample_map))
                (filter (\<lambda>k. k \<notin> set FILL_KEYS) (available_subfolders sample_map)) \<and>
            (\<forall>k \<in> set FILL_KEYS. k \<in> set (available_subfolders sample_map) \<longrightarrow>
               k \<in> set (selected_subfolders max_folders sample_map))) \<and>
         length FILL_KEYS \<le> MAX_FOLDERS_PER_PACK"
proof -
  let ?av = "available_subfolders sample_map"
  let ?pri = "prioritized_subfolders sample_map"
  have rem: "remaining_subfolders sample_map = filter (\<lambda>k. k \<notin> set FILL_KEYS) ?av"
    unfolding remaining_subfolders_def prioritized_subfolders_def
    by (rule filter_cong) auto
  have sel: "selected_subfolders max_folders sample_map =
              ?pri @ take (max_folders - length ?pri) (filter (\<lambda>k. k \<notin> set FILL_KEYS) ?av)"
    if "max_folders < length ?av" "length FILL_KEYS \<le> max_folders"
  proof -
    have le: "length ?pri \<le> max_folders" using length_prioritized[of sample_map] that(2) by simp
    show ?thesis
    proof (cases "length ?pri < max_folders")
      case True
      with that le show ?thesis by (simp add: selected_subfolders_def Let_def rem)
    next
      case False
      with le have "length ?pri = max_folders" by simp
      with that show ?thesis by (simp add: selected_subfolders_def Let_def)
    qed
  qed
  have "k \<in> set (selected_subfolders max_folders sample_map)"
    if "max_folders < length ?av" "length FILL_KEYS \<le> max_folders" "k \<in> set FILL_KEYS" "k \<in> set ?av" for k
    using sel[OF that(1,2)] that(3,4) by (simp add: prioritized_subfolders_def)
  moreover have "length FILL_KEYS \<le> MAX_FOLDERS_PER_PACK"
    by (simp add: FILL_KEYS_def MAX_FOLDERS_PER_PACK_def)
  ultimately show ?thesis
    using length_selected_subfolders[OF assms] sel
    unfolding prioritized_subfolders_def by blast
qed

theorem folder_bound_witness:
  "distinct (map fst many_pools) \<and>
   MAX_FOLDERS_PER_PACK < length (available_subfolders many_pools) \<and>
   length FILL_KEYS \<le> MAX_FOLDERS_PER_PACK \<and>
   length (available_subfolders many_pools) = 22 \<and>
   length (selected_subfolders MAX_FOLDERS_PER_PACK many_pools) = 20 \<and>
   ''Snare'' \<in> set FILL_KEYS \<and> ''Snare'' \<in> set (available_subfolders many_pools) \<and>
   ''Snare'' \<in> set (selected_subfolders MAX_FOLDERS_PER_PACK many_pools) \<and>
   selected_subfolders MAX_FOLDERS_PER_PACK many_pools =
     [''Kick'', ''Snare'', ''Bass''] @
     take 17 (filter (\<lambda>k. k \<notin> set FILL_KEYS) (available_subfolders many_pools))"
proof -
  have d: "distinct (map fst many_pools)" by code_simp
  have p: "length (available_subfolders many_pools) = 22" by code_simp
  have m: "MAX_FOLDERS_PER_PACK < length (available_subfolders many_pools)"
    by (simp add: p MAX_FOLDERS_PER_PACK_def)
  have f: "length FILL_KEYS \<le> MAX_FOLDERS_PER_PACK"
    by (simp add: FILL_KEYS_def MAX_FOLDERS_PER_PACK_def)
  have k: "''Snare'' \<in> set FILL_KEYS" by (simp add: FILL_KEYS_def)
  have a: "''Snare'' \<in> set (available_subfolders many_pools)" by code_simp
  have pri: "filter (\<lambda>k. k \<in> set (available_subfolders many_pools)) FILL_KEYS
      = [''Kick'', ''Snare'', ''Bass'']" by code_simp
  have lp: "length (prioritized_subfolders many_pools) = 3"
    by (simp add: prioritized_subfolders_def pri)
  note fb = folder_bound[OF d, of MAX_FOLDERS_PER_PACK]
  have len: "length (selected_subfolders MAX_FOLDERS_PER_PACK many_pools) = 20"
    using conjunct1[OF fb] p by (simp add: MAX_FOLDERS_PER_PACK_def)
  from fb m f k a have mem: "''Snare'' \<in> set (selected_subfolders MAX_FOLDERS_PER_PACK many_pools)"
    by blast
  from fb m f have "selected_subfolders MAX_FOLDERS_PER_PACK many_pools =
     filter (\<lambda>k. k \<in> set (available_subfolders many_pools)) FILL_KEYS @
     take (MAX_FOLDERS_PER_PACK - length (prioritized_subfolders many_pools))
       (filter (\<lambda>k. k \<notin> set FILL_KEYS) (available_subfolders many_pools))"
    by blast
  then have eq: "selected_subfolders MAX_FOLDERS_PER_PACK many_pools =
     [''Kick'', ''Snare'', ''Bass''] @
     take 17 (filter (\<lambda>k. k \<notin> set FILL_KEYS) (available_subfolders many_pools))"
    by (simp add: pri lp MAX_FOLDERS_PER_PACK_def)
  from d m f p len k a mem eq show ?thesis by blast
qed

section \<open>Scarce supply\<close>

lemma draw_Suc:
  "xs \<noteq> [] \<Longrightarrow>
     draw rnd pos xs (Suc k) =
       xs ! (rnd pos mod length xs) #
       draw rnd (Suc pos)
         (take (rnd pos mod length xs) xs @ drop (Suc (rnd pos mod length xs)) xs) k"
  by (simp add: Let_def)

lemma draw_all: "mset (draw rnd pos xs (length xs)) = mset xs"
proof (induction "length xs" arbitrary: xs pos)
  case 0
  then show ?case by simp
next
  case (Suc n)
  then have ne: "xs \<noteq> []" by auto
  define j where "j = rnd pos mod length xs"
  have j: "j < length xs" using ne by (simp add: j_def)
  define r where "r = take j xs @ drop (Suc j) xs"
  have len: "n = length r" using Suc.hyps(2) j by (simp add: r_def)
  have split: "mset xs = add_mset (xs ! j) (mset r)"
    unfolding r_def
    using id_take_nth_drop[OF j] by (metis mset.simps(2) mset_append union_mset_add_mset_right)
  have "draw rnd pos xs (Suc n) = xs ! j # draw rnd (Suc pos) r n"
    unfolding j_def r_def by (rule draw_Suc[OF ne])
  moreover have "mset (draw rnd (Suc pos) r n) = mset r"
    using Suc.hyps(1)[OF len, of "Suc pos"] unfolding len[symmetric] .
  ultimately show ?case using split Suc.hyps(2) by simp
qed

lemma filter_draw_all: "filter (\<lambda>x. x \<notin> set (draw rnd pos xs (length xs))) xs = []"
proof -
  have "set (draw rnd pos xs (length xs)) = set xs"
    using draw_all[of rnd pos xs] by (metis set_mset_mset)
  then show ?thesis by simp
qed

lemma for_body_drain:
  assumes inv: "alloc_inv budget sm kinds st"
    and le: "int (length (dict_get (remaining_samples st) k [])) \<le> files_per_kind st"
    and bud: "int (length (dict_get (remaining_samples st) k [])) \<le> files_left st"
  shows "\<exists>st'. for_body rnd k st = Inr st' \<and>
           files_left st' = files_left st - int (length (dict_get (remaining_samples st) k [])) \<and>
           dict_get (remaining_samples st') k [] = [] \<and>
           (\<forall>k'. k' \<noteq> k \<longrightarrow>
              dict_get (remaining_samples st') k' [] = dict_get (remaining_samples st) k' []) \<and>
           files_per_kind st' = files_per_kind st"
proof (cases "dict_get (remaining_samples st) k [] = []")
  case True
  then have "for_body rnd k st = Inr st" by (simp add: for_body_skip)
  with True show ?thesis by simp
next
  case False
  define kv where "kv = dict_get (remaining_samples st) k []"
  have kv: "kv \<noteq> []" using False by (simp add: kv_def)
  then have lpos: "0 < int (length kv)" by simp
  have fpk: "0 < files_per_kind st" using le lpos unfolding kv_def by linarith
  have rem: "map_of (remaining_samples st) k = Some kv"
    using kv by (auto simp: kv_def dict_get_def split: option.splits)
  with inv obtain l where l: "map_of (selected_files st) k = Some l"
    by (auto simp: alloc_inv_def)
  have fl: "0 \<le> files_left st" using inv by (simp add: alloc_inv_def)
  have n: "min (min (files_per_kind st) (int (length kv))) (files_left st) = int (length kv)"
    using le bud by (simp add: kv_def)
  from for_body_draw[OF kv_def[symmetric] kv fpk fl l, of rnd] lpos
  have "for_body rnd k st =
     Inr (st\<lparr>not_empty := True, files_left := files_left st - int (length kv),
               remaining_samples := AList.update k [] (remaining_samples st),
               selected_files :=
                 AList.map_entry k (\<lambda>l. l @ draw rnd (rng st) kv (length kv)) (selected_files st),
               files_inserted := files_inserted st + int (length kv),
               rng := rng st + length kv\<rparr>)"
    by (simp add: n Let_def filter_draw_all)
  then show ?thesis by (simp add: kv_def dict_get_update)
qed

lemma for_kinds_drain:
  assumes "alloc_inv budget sm kinds st" "distinct ks"
    and "\<forall>k \<in> set ks. int (length (dict_get (remaining_samples st) k [])) \<le> files_per_kind st"
    and "(\<Sum>k\<leftarrow>ks. int (length (dict_get (remaining_samples st) k []))) \<le> files_left st"
  shows "\<exists>st'. for_kinds rnd ks st = Inr st' \<and>
           files_left st' =
             files_left st - (\<Sum>k\<leftarrow>ks. int (length (dict_get (remaining_samples st) k []))) \<and>
           (\<forall>k \<in> set ks. dict_get (remaining_samples st') k [] = []) \<and>
           (\<forall>k. k \<notin> set ks \<longrightarrow>
              dict_get (remaining_samples st') k [] = dict_get (remaining_samples st) k [])"
  using assms
proof (induction ks arbitrary: st)
  case Nil
  then show ?case by simp
next
  case (Cons k ks)
  let ?len = "\<lambda>s k. int (length (dict_get (remaining_samples s) k []))"
  have nonneg: "0 \<le> (\<Sum>k\<leftarrow>ks. ?len st k)" by (rule sum_list_nonneg) auto
  from Cons.prems have le: "?len st k \<le> files_per_kind st" and bud: "?len st k \<le> files_left st"
    using nonneg by auto
  from for_body_drain[OF Cons.prems(1) le bud, of rnd] obtain s where
    s: "for_body rnd k st = Inr s" and fl: "files_left s = files_left st - ?len st k"
    and emp: "dict_get (remaining_samples s) k [] = []"
    and oth: "\<And>k'. k' \<noteq> k \<Longrightarrow> dict_get (remaining_samples s) k' [] = dict_get (remaining_samples st) k' []"
    and fpk: "files_per_kind s = files_per_kind st"
    by blast
  from for_body_inv[OF Cons.prems(1), of rnd k] s have inv: "alloc_inv budget sm kinds s" by simp
  have same1: "?len s k' = ?len st k'" if "k' \<in> set ks" for k'
  proof -
    from that Cons.prems(2) have "k' \<noteq> k" by auto
    from oth[OF this] show ?thesis by simp
  qed
  have same: "map (?len s) ks = map (?len st) ks"
    by (rule map_cong[OF refl]) (rule same1)
  have sums: "(\<Sum>k\<leftarrow>ks. ?len s k) = (\<Sum>k\<leftarrow>ks. ?len st k)"
    by (simp only: same)
  have p3: "\<forall>k \<in> set ks. ?len s k \<le> files_per_kind s"
    using Cons.prems(3) same1 fpk by auto
  have p4: "(\<Sum>k\<leftarrow>ks. ?len s k) \<le> files_left s"
    using Cons.prems(4) fl sums by simp
  from Cons.prems(2) have dks: "distinct ks" by simp
  from Cons.IH[OF inv dks p3 p4] obtain st' where
    r: "for_kinds rnd ks s = Inr st'"
    and fl': "files_left st' = files_left s - (\<Sum>k\<leftarrow>ks. ?len s k)"
    and emp': "\<forall>k \<in> set ks. dict_get (remaining_samples st') k [] = []"
    and oth': "\<forall>k. k \<notin> set ks \<longrightarrow> dict_get (remaining_samples st') k [] = dict_get (remaining_samples s) k []"
    by blast
  have "for_kinds rnd (k # ks) st = Inr st'" using s r by simp
  moreover have "files_left st' = files_left st - (\<Sum>k\<leftarrow>k # ks. ?len st k)"
    using fl fl' sums by simp
  moreover have "\<forall>k' \<in> set (k # ks). dict_get (remaining_samples st') k' [] = []"
    using emp emp' oth' Cons.prems(2) by auto
  moreover have "\<forall>k'. k' \<notin> set (k # ks) \<longrightarrow>
      dict_get (remaining_samples st') k' [] = dict_get (remaining_samples st) k' []"
    using oth oth' by auto
  ultimately show ?case by blast
qed


lemma while_body_unfold:
  assumes "all_kinds \<noteq> []" and "0 < round_i st"
  shows "while_body rnd budget all_kinds st =
           (case for_kinds rnd all_kinds
                   (st\<lparr>files_per_kind := (budget div int (length all_kinds)) div round_i st,
                       not_empty := False\<rparr>) of
              Inl e \<Rightarrow> Inl e
            | Inr st' \<Rightarrow> Inr (st'\<lparr>round_i := round_i st' + 1\<rparr>))"
  using assms by (simp add: while_body_def floordiv_def)

lemma for_kinds_all_empty:
  "\<forall>k \<in> set ks. dict_get (remaining_samples st) k [] = [] \<Longrightarrow> for_kinds rnd ks st = Inr st"
  by (induction ks) (simp_all add: for_body_skip)

lemma sum_list_le_length_times:
  "\<forall>k \<in> set ks. f k \<le> (q::int) \<Longrightarrow> (\<Sum>k\<leftarrow>ks. f k) \<le> int (length ks) * q"
  by (induction ks) (auto simp: algebra_simps)

lemma times_div_le:
  assumes "0 < (n::int)"
  shows "n * (b div n) \<le> b"
proof -
  have "b div n * n + b mod n = b" by (rule div_mult_mod_eq)
  moreover have "0 \<le> b mod n" using assms by simp
  ultimately have "b div n * n \<le> b" by linarith
  then show ?thesis by (simp add: mult.commute)
qed

lemma initial_remaining:
  "k \<in> set all_kinds \<Longrightarrow>
     dict_get (remaining_samples (initial_state budget all_kinds sample_map)) k [] =
     dict_get sample_map k []"
  by (simp add: initial_state_def dict_get_def map_of_filter_keys)

lemma allocate_drain:
  assumes b: "0 \<le> budget" and d: "distinct all_kinds"
    and small: "\<forall>k \<in> set all_kinds.
                  int (length (dict_get sample_map k [])) \<le> budget div int (length all_kinds)"
  shows "\<exists>st. allocate rnd budget all_kinds sample_map = Inr st \<and>
           plan_total (selected_files st) =
             (\<Sum>k\<leftarrow>all_kinds. int (length (dict_get sample_map k [])))"
proof -
  let ?st0 = "initial_state budget all_kinds sample_map"
  let ?len = "\<lambda>s k. int (length (dict_get (remaining_samples s) k []))"
  let ?S = "\<Sum>k\<leftarrow>all_kinds. int (length (dict_get sample_map k []))"
  let ?q = "budget div int (length all_kinds)"
  have S0: "0 \<le> ?S" by (rule sum_list_nonneg) auto
  have inv0: "alloc_inv budget sample_map all_kinds ?st0" using b by (rule initial_state_inv)
  have fl0: "files_left ?st0 = budget" and ne0: "not_empty ?st0" and i0: "round_i ?st0 = 1"
    by (simp_all add: initial_state_def)
  have goal: "\<exists>st. while_loop rnd budget all_kinds ?st0 = Inr st \<and> files_left st = budget - ?S"
  proof (cases "all_kinds = []")
    case True
    then have "while_loop rnd budget all_kinds ?st0 = Inr ?st0" by (simp add: while_loop_stop)
    with True fl0 show ?thesis by simp
  next
    case ne: False
    then have npos: "0 < int (length all_kinds)" by simp
    have "?S \<le> int (length all_kinds) * ?q" using small by (rule sum_list_le_length_times)
    also have "\<dots> \<le> budget" using npos by (rule times_div_le)
    finally have Sb: "?S \<le> budget" .
    show ?thesis
    proof (cases "0 < budget")
      case False
      with b have z: "budget = 0" by simp
      then have "while_loop rnd budget all_kinds ?st0 = Inr ?st0"
        using fl0 by (simp add: while_loop_stop)
      moreover have "?S = 0" using Sb S0 z by simp
      ultimately show ?thesis using fl0 z by simp
    next
      case True
      define st0' where "st0' = ?st0\<lparr>files_per_kind := ?q div round_i ?st0, not_empty := False\<rparr>"
      have inv0': "alloc_inv budget sample_map all_kinds st0'"
        unfolding st0'_def using inv0 by (rule alloc_inv_frame(1))
      have rem0: "?len st0' k = int (length (dict_get sample_map k []))" if "k \<in> set all_kinds" for k
        using initial_remaining[OF that, of budget sample_map] by (simp add: st0'_def)
      have maps: "map (?len st0') all_kinds = map (\<lambda>k. int (length (dict_get sample_map k []))) all_kinds"
        by (rule map_cong[OF refl]) (rule rem0)
      have sums: "(\<Sum>k\<leftarrow>all_kinds. ?len st0' k) = ?S" by (simp only: maps)
      have fpk0: "files_per_kind st0' = ?q" and fl0': "files_left st0' = budget"
        by (simp_all add: st0'_def initial_state_def)
      have c3: "\<forall>k \<in> set all_kinds. ?len st0' k \<le> files_per_kind st0'"
        using small rem0 fpk0 by simp
      have c4: "(\<Sum>k\<leftarrow>all_kinds. ?len st0' k) \<le> files_left st0'"
        using sums Sb fl0' by simp
      from for_kinds_drain[OF inv0' d c3 c4, of rnd] obtain s1 where
        s1: "for_kinds rnd all_kinds st0' = Inr s1"
        and fl1: "files_left s1 = budget - ?S"
        and emp1: "\<forall>k \<in> set all_kinds. dict_get (remaining_samples s1) k [] = []"
        using sums fl0' by auto
      define st1 where "st1 = s1\<lparr>round_i := round_i s1 + 1\<rparr>"
      have wb: "while_body rnd budget all_kinds ?st0 = Inr st1"
        using while_body_unfold[OF ne, of ?st0 rnd budget] i0 s1
        by (simp add: st0'_def st1_def)
      have step: "while_loop rnd budget all_kinds ?st0 = while_loop rnd budget all_kinds st1"
        using True fl0 ne0 ne wb by (simp add: while_loop_step)
      have i1: "0 < round_i st1"
        using for_kinds_frame[OF s1] by (simp add: st1_def st0'_def initial_state_def)
      have emp1': "\<forall>k \<in> set all_kinds. dict_get (remaining_samples st1) k [] = []"
        using emp1 by (simp add: st1_def)
      have fl1': "files_left st1 = budget - ?S" using fl1 by (simp add: st1_def)
      show ?thesis
      proof (cases "files_left st1 > 0 \<and> not_empty st1")
        case False
        then have "while_loop rnd budget all_kinds st1 = Inr st1"
          by (intro while_loop_stop) auto
        with step fl1' show ?thesis by simp
      next
        case c: True
        define st1' where "st1' = st1\<lparr>files_per_kind := ?q div round_i st1, not_empty := False\<rparr>"
        have "for_kinds rnd all_kinds st1' = Inr st1'"
          using emp1' by (intro for_kinds_all_empty) (simp add: st1'_def)
        then have wb2: "while_body rnd budget all_kinds st1 = Inr (st1'\<lparr>round_i := round_i st1' + 1\<rparr>)"
          using while_body_unfold[OF ne i1, of rnd budget] by (simp add: st1'_def)
        have "while_loop rnd budget all_kinds st1
                = while_loop rnd budget all_kinds (st1'\<lparr>round_i := round_i st1' + 1\<rparr>)"
          using c ne wb2 by (simp add: while_loop_step)
        also have "\<dots> = Inr (st1'\<lparr>round_i := round_i st1' + 1\<rparr>)"
          by (intro while_loop_stop) (simp add: st1'_def)
        finally show ?thesis using step fl1' by (simp add: st1'_def)
      qed
    qed
  qed
  then obtain st where st: "allocate rnd budget all_kinds sample_map = Inr st"
    and fl: "files_left st = budget - ?S" by (auto simp: allocate_def)
  from allocate_inv[OF b, of rnd all_kinds sample_map] st
  have "alloc_inv budget sample_map all_kinds st" by simp
  then have "plan_total (selected_files st) = budget - files_left st"
    by (auto simp: alloc_inv_def)
  with st fl show ?thesis by simp
qed

lemma allocate_supply:
  "\<exists>st. allocate rnd budget all_kinds sample_map = Inr st \<and>
        plan_total (selected_files st) \<le> total_supply all_kinds sample_map \<and>
        (0 \<le> budget \<longrightarrow> plan_total (selected_files st) \<le> budget)"
proof (cases "0 \<le> budget")
  case True
  from allocate_inv[OF True, of rnd all_kinds sample_map] obtain st
    where st: "allocate rnd budget all_kinds sample_map = Inr st"
      and inv: "alloc_inv budget sample_map all_kinds st" by blast
  from inv plan_total_nonneg[of "remaining_samples st"]
  have "plan_total (selected_files st) \<le> total_supply all_kinds sample_map"
    by (simp add: alloc_inv_def total_supply_def)
  moreover from inv have "plan_total (selected_files st) \<le> budget"
    by (auto simp: alloc_inv_def)
  ultimately show ?thesis using st by blast
next
  case False
  then have "allocate rnd budget all_kinds sample_map = Inr (initial_state budget all_kinds sample_map)"
    by (simp add: allocate_def initial_state_def while_loop_stop)
  moreover have "plan_total (selected_files (initial_state budget all_kinds sample_map)) = 0"
    by (simp add: initial_state_def plan_total_map_empty)
  ultimately show ?thesis
    using False plan_total_nonneg[of "filter (\<lambda>(k, v). k \<in> set all_kinds) sample_map"]
    by (simp add: total_supply_def)
qed

text \<open>
  C9. The allocator never raises: for every budget, admitted list, sample map and random
  source it returns a state, whose plan holds at most the candidate supply, hence fewer
  files than the budget when the supply is below it; with no admitted category the plan is
  empty; and two admitted categories with pools of 2 and 3 files give a plan of exactly 5
  files, for a budget of 100 as for the program's budget.
\<close>

theorem scarce_supply:
  "(\<exists>st. allocate rnd budget all_kinds sample_map = Inr st \<and>
         plan_total (selected_files st) \<le> total_supply all_kinds sample_map \<and>
         (total_supply all_kinds sample_map < budget \<longrightarrow>
            plan_total (selected_files st) < budget)) \<and>
   (\<exists>st. allocate rnd budget [] sample_map = Inr st \<and> plan_total (selected_files st) = 0) \<and>
   (k1 \<noteq> k2 \<and> length xs = 2 \<and> length ys = 3 \<longrightarrow>
      (\<exists>st. allocate rnd 100 (selected_subfolders MAX_FOLDERS_PER_PACK [(k1, xs), (k2, ys)])
              [(k1, xs), (k2, ys)] = Inr st \<and>
            plan_total (selected_files st) = 5) \<and>
      (\<exists>st. create_sample_pack_plan rnd [(k1, xs), (k2, ys)] = Inr st \<and>
            plan_total (selected_files st) = 5))"
proof -
  from allocate_supply[of rnd budget all_kinds sample_map]
  have A: "\<exists>st. allocate rnd budget all_kinds sample_map = Inr st \<and>
         plan_total (selected_files st) \<le> total_supply all_kinds sample_map \<and>
         (total_supply all_kinds sample_map < budget \<longrightarrow>
            plan_total (selected_files st) < budget)"
    by force
  from allocate_supply[of rnd budget "[]" sample_map] obtain st0
    where st0: "allocate rnd budget [] sample_map = Inr st0"
      and le: "plan_total (selected_files st0) \<le> total_supply [] sample_map" by blast
  have "total_supply [] sample_map = 0"
    by (simp add: total_supply_def plan_total_def)
  with le plan_total_nonneg[of "selected_files st0"] have "plan_total (selected_files st0) = 0"
    by simp
  with st0 have B: "\<exists>st. allocate rnd budget [] sample_map = Inr st \<and>
      plan_total (selected_files st) = 0" by blast
  have C: "(\<exists>st. allocate rnd 100 (selected_subfolders MAX_FOLDERS_PER_PACK [(k1, xs), (k2, ys)])
              [(k1, xs), (k2, ys)] = Inr st \<and>
            plan_total (selected_files st) = 5) \<and>
      (\<exists>st. create_sample_pack_plan rnd [(k1, xs), (k2, ys)] = Inr st \<and>
            plan_total (selected_files st) = 5)"
    if h: "k1 \<noteq> k2" "length xs = 2" "length ys = 3"
  proof -
    let ?sm = "[(k1, xs), (k2, ys)]"
    have ne: "xs \<noteq> []" "ys \<noteq> []" using h by auto
    have sel: "selected_subfolders MAX_FOLDERS_PER_PACK ?sm = [k1, k2]"
      using ne by (simp add: selected_subfolders_def available_subfolders_def MAX_FOLDERS_PER_PACK_def)
    have d: "distinct [k1, k2]" using h by simp
    have g: "dict_get ?sm k1 [] = xs" "dict_get ?sm k2 [] = ys"
      using h by (simp_all add: dict_get_def)
    have s100: "\<forall>k \<in> set [k1, k2]. int (length (dict_get ?sm k [])) \<le> 100 div int (length [k1, k2])"
      using h g by simp
    have s255: "\<forall>k \<in> set [k1, k2].
        int (length (dict_get ?sm k [])) \<le> MAX_FILES_PER_PACK div int (length [k1, k2])"
      using h g by (simp add: MAX_FILES_PER_PACK_def)
    have sum5: "(\<Sum>k\<leftarrow>[k1, k2]. int (length (dict_get ?sm k []))) = 5"
      using h g by simp
    from allocate_drain[OF _ d s100, of rnd] sum5
    have "\<exists>st. allocate rnd 100 [k1, k2] ?sm = Inr st \<and> plan_total (selected_files st) = 5"
      by simp
    moreover from allocate_drain[OF _ d s255, of rnd] sum5
    have "\<exists>st. allocate rnd MAX_FILES_PER_PACK [k1, k2] ?sm = Inr st \<and>
        plan_total (selected_files st) = 5"
      by (simp add: MAX_FILES_PER_PACK_def)
    ultimately show ?thesis by (simp add: sel create_sample_pack_plan_def)
  qed
  from A B C show ?thesis by blast
qed

theorem scarce_supply_witness:
  "''Kick'' \<noteq> ''Snare'' \<and> length [1, 2 :: nat] = 2 \<and> length [3, 4, 5 :: nat] = 3 \<and>
   total_supply [''Kick'', ''Snare''] [(''Kick'', [1, 2 :: nat]), (''Snare'', [3, 4, 5])] < 100 \<and>
   (\<exists>st. allocate (\<lambda>_. 0) 100 [''Kick'', ''Snare'']
            [(''Kick'', [1, 2 :: nat]), (''Snare'', [3, 4, 5])] = Inr st \<and>
         plan_total (selected_files st) < 100) \<and>
   (\<exists>st. allocate (\<lambda>_. 0) 100
            (selected_subfolders MAX_FOLDERS_PER_PACK
               [(''Kick'', [1, 2 :: nat]), (''Snare'', [3, 4, 5])])
            [(''Kick'', [1, 2 :: nat]), (''Snare'', [3, 4, 5])] = Inr st \<and>
         plan_total (selected_files st) = 5)"
proof -
  let ?sm = "[(''Kick'', [1, 2 :: nat]), (''Snare'', [3, 4, 5])]"
  note t = scarce_supply[of "\<lambda>_. 0" 100 "[''Kick'', ''Snare'']" ?sm "''Kick''" "''Snare''"
      "[1, 2]" "[3, 4, 5]"]
  have s: "total_supply [''Kick'', ''Snare''] ?sm < 100"
    by (simp add: total_supply_def plan_total_def)
  have h: "''Kick'' \<noteq> ''Snare'' \<and> length [1, 2 :: nat] = 2 \<and> length [3, 4, 5 :: nat] = 3"
    by simp
  from t s have "\<exists>st. allocate (\<lambda>_. 0) 100 [''Kick'', ''Snare''] ?sm = Inr st \<and>
         plan_total (selected_files st) < 100" by blast
  moreover from t h have "\<exists>st. allocate (\<lambda>_. 0) 100
            (selected_subfolders MAX_FOLDERS_PER_PACK ?sm) ?sm = Inr st \<and>
         plan_total (selected_files st) = 5" by blast
  ultimately show ?thesis using s h by blast
qed

section \<open>Paths\<close>

text \<open>
  Paths are strings with \<open>/\<close> as separator. \<open>path_join\<close> is \<open>os.path.join\<close> and the
  \<open>/\<close> of \<open>pathlib\<close>: an absolute second part replaces the first. \<open>name\<close> is
  \<open>Path.name\<close>, the part after the last separator.
\<close>

type_synonym path = string

definition is_absolute :: "path \<Rightarrow> bool" where
  "is_absolute p = (case p of [] \<Rightarrow> False | c # _ \<Rightarrow> c = CHR ''/'')"

definition path_join :: "path \<Rightarrow> path \<Rightarrow> path" where
  "path_join a b =
     (if is_absolute b then b
      else if a = [] \<or> last a = CHR ''/'' then a @ b
      else a @ ''/'' @ b)"

definition name :: "path \<Rightarrow> string" where
  "name p = rev (takeWhile (\<lambda>c. c \<noteq> CHR ''/'') (rev p))"

section \<open>Pool building\<close>

text \<open>
  The file system \<open>collect_wav_files\<close> reads (lines 944-992): a directory holds its file
  names, each with the size \<open>stat\<close> reports (\<open>None\<close> when \<open>stat\<close> raises
  \<open>FileNotFoundError\<close>), and its subdirectories by name. \<open>walk\<close> is \<open>os.walk\<close>, top
  down: a directory comes before its subdirectories, and the loop body of the source never
  changes \<open>dirnames\<close>, so every subdirectory is visited. \<open>valid_names\<close> says that the names
  of subdirectories are relative, as the entries of a directory are.
\<close>

datatype tree = Dir "(string \<times> int option) list" "(string \<times> tree) list"

fun walk :: "path \<Rightarrow> tree \<Rightarrow> (path \<times> (string \<times> int option) list) list" where
  "walk dirpath (Dir filenames dirnames) =
     (dirpath, filenames) #
     concat (map (\<lambda>(d, t). walk (path_join dirpath d) t) dirnames)"

fun valid_names :: "tree \<Rightarrow> bool" where
  "valid_names (Dir filenames dirnames) =
     (\<forall>(d, t) \<in> set dirnames. \<not> is_absolute d \<and> valid_names t)"

text \<open>\<open>str.lower\<close> on ASCII, and the substring test \<open>sub in s\<close>.\<close>

definition lower_char :: "char \<Rightarrow> char" where
  "lower_char c =
     (let n = (of_char c :: nat) in if 65 \<le> n \<and> n \<le> 90 then char_of (n + 32) else c)"

definition lower :: "string \<Rightarrow> string" where
  "lower s = map lower_char s"

fun substring_in :: "string \<Rightarrow> string \<Rightarrow> bool" where
  "substring_in sub [] = (sub = [])"
| "substring_in sub (c # s) = (prefix sub (c # s) \<or> substring_in sub s)"

text \<open>
  The two directory tests of lines 963-972: a directory whose test fails is left by
  \<open>continue\<close>, which skips its files only.
\<close>

definition dir_selected :: "string list \<Rightarrow> string list \<Rightarrow> path \<Rightarrow> bool" where
  "dir_selected include_dirs exclude_dirs dirpath =
     (let current_dir_path_lower = lower dirpath in
      \<not> (include_dirs \<noteq> [] \<and>
           \<not> list_ex (\<lambda>incl. substring_in (lower incl) current_dir_path_lower) include_dirs) \<and>
      \<not> (exclude_dirs \<noteq> [] \<and>
           list_ex (\<lambda>excl. substring_in (lower excl) current_dir_path_lower) exclude_dirs))"

text \<open>The tests on one file name (lines 974-989); the regex is a predicate on the name.\<close>

definition file_selected :: "(string \<Rightarrow> bool) option \<Rightarrow> string \<times> int option \<Rightarrow> bool" where
  "file_selected pattern entry =
     (case entry of (filename, st_size) \<Rightarrow>
        suffix ''.wav'' (lower filename) \<and>
        (case st_size of
           None \<Rightarrow> False
         | Some size_bytes \<Rightarrow>
             size_bytes \<le> 1024 * MAX_FILE_SIZE_KB \<and>
             (case pattern of None \<Rightarrow> True | Some search \<Rightarrow> search filename)))"

definition collect_walk ::
  "(string \<Rightarrow> bool) option \<Rightarrow> string list \<Rightarrow> string list \<Rightarrow>
     (path \<times> (string \<times> int option) list) list \<Rightarrow> path list" where
  "collect_walk pattern include_dirs exclude_dirs entries =
     concat (map (\<lambda>(dirpath, filenames).
                    if dir_selected include_dirs exclude_dirs dirpath
                    then map (\<lambda>(filename, st_size). path_join dirpath filename)
                           (filter (file_selected pattern) filenames)
                    else [])
                 entries)"

definition collect_wav_files ::
  "(path \<Rightarrow> tree option) \<Rightarrow> path list \<Rightarrow> (string \<Rightarrow> bool) option \<Rightarrow> string list \<Rightarrow>
     string list \<Rightarrow> path list" where
  "collect_wav_files disk source_dirs pattern include_dirs exclude_dirs =
     concat (map (\<lambda>source_dir.
                    case disk source_dir of
                      None \<Rightarrow> []
                    | Some t \<Rightarrow> collect_walk pattern include_dirs exclude_dirs (walk source_dir t))
                 source_dirs)"

section \<open>Materialization\<close>

text \<open>
  The disk the materializer writes is a map from paths to file contents, with the lines
  printed so far. \<open>pydub\<close> stands for the audio library: what loading, trimming and
  converting a content yields, an exported content or one of the two exceptions
  \<open>convert_audio\<close> catches (lines 923-941). \<open>convert_audio\<close> itself never raises.
  \<open>process_file\<close> is the body of \<open>for file_path in files\<close> (lines 1096-1109) and
  \<open>materialize\<close> the loop over the plan (lines 1089-1109).
\<close>

datatype 'c audio_result = Exported 'c | CouldntDecodeError | OtherError

datatype log_entry =
    Could_not_decode path
  | Error_processing path
  | Failed_to_process path
  | Deleted_incomplete path

type_synonym 'c disk_state = "(path \<Rightarrow> 'c option) \<times> log_entry list"

definition copy2 :: "(path \<Rightarrow> 'c option) \<Rightarrow> path \<Rightarrow> path \<Rightarrow> py_error + (path \<Rightarrow> 'c option)" where
  "copy2 files src dst =
     (if src = dst then Inl SameFileError
      else case files src of None \<Rightarrow> Inl FileNotFoundError | Some c \<Rightarrow> Inr (files(dst \<mapsto> c)))"

definition convert_audio ::
  "('c \<Rightarrow> int \<Rightarrow> 'c audio_result) \<Rightarrow> 'c disk_state \<Rightarrow> path \<Rightarrow> int \<Rightarrow> 'c disk_state" where
  "convert_audio pydub ds wav_file_path channels =
     (case ds of (files, log) \<Rightarrow>
        (case files wav_file_path of
           None \<Rightarrow> (files, log @ [Error_processing wav_file_path])
         | Some audio \<Rightarrow>
             (case pydub audio channels of
                Exported trimmed_audio \<Rightarrow> (files(wav_file_path \<mapsto> trimmed_audio), log)
              | CouldntDecodeError \<Rightarrow> (files, log @ [Could_not_decode wav_file_path])
              | OtherError \<Rightarrow> (files, log @ [Error_processing wav_file_path]))))"

definition dest_file_path :: "path \<Rightarrow> string \<Rightarrow> path \<Rightarrow> path" where
  "dest_file_path pack_dir subfolder file_path =
     path_join (path_join pack_dir subfolder) (name file_path)"

definition process_file ::
  "('c \<Rightarrow> int \<Rightarrow> 'c audio_result) \<Rightarrow> path \<Rightarrow> string \<Rightarrow> int \<Rightarrow> 'c disk_state \<Rightarrow> path \<Rightarrow>
     'c disk_state" where
  "process_file pydub pack_dir subfolder channels ds file_path =
     (case ds of (files, log) \<Rightarrow>
        (let dest = dest_file_path pack_dir subfolder file_path in
         case copy2 files file_path dest of
           Inr files' \<Rightarrow> convert_audio pydub (files', log) dest channels
         | Inl e \<Rightarrow>
             (let log' = log @ [Failed_to_process file_path] in
              if files dest \<noteq> None
              then (files(dest := None), log' @ [Deleted_incomplete dest])
              else (files, log'))))"

fun materialize ::
  "('c \<Rightarrow> int \<Rightarrow> 'c audio_result) \<Rightarrow> (string \<times> int option) list \<Rightarrow> path \<Rightarrow>
     'c disk_state \<Rightarrow> path sample_map \<Rightarrow> py_error + 'c disk_state" where
  "materialize pydub config pack_dir ds [] = Inr ds"
| "materialize pydub config pack_dir ds ((subfolder, files) # rest) =
     (if files = [] then materialize pydub config pack_dir ds rest
      else (case map_of config subfolder of
              None \<Rightarrow> Inl KeyError
            | Some channels_entry \<Rightarrow>
                materialize pydub config pack_dir
                  (foldl (process_file pydub pack_dir subfolder
                            (case channels_entry of None \<Rightarrow> 2 | Some ch \<Rightarrow> ch))
                     ds files)
                  rest))"



text \<open>A library with a file at the top, a directory of kicks and a directory of loops.\<close>

definition kick_library :: "path \<Rightarrow> tree option" where
  "kick_library p =
     (if p = ''/lib''
      then Some (Dir [(''readme.wav'', Some 100)]
                  [(''Kicks'', Dir [(''k.wav'', Some 1000)] []),
                   (''Loops'', Dir [(''l.wav'', Some 1000)]
                                 [(''Kick Loops'', Dir [(''kl.wav'', Some 1000)] [])])])
      else None)"

section \<open>Properties of pool building\<close>

lemma substring_in_sublist: "substring_in sub s \<longleftrightarrow> sublist sub s"
  by (induction s) (auto simp: sublist_Cons_right)

lemma path_join_prefix: "\<not> is_absolute b \<Longrightarrow> prefix a (path_join a b)"
  by (simp add: path_join_def)

lemma walk_prefix:
  "valid_names t \<Longrightarrow> (d', fs) \<in> set (walk d t) \<Longrightarrow> prefix d d'"
proof (induction d t arbitrary: d' fs rule: walk.induct)
  case (1 dirpath filenames dirnames)
  from "1.prems"(2) consider "d' = dirpath"
    | n t where "(n, t) \<in> set dirnames" "(d', fs) \<in> set (walk (path_join dirpath n) t)"
    by auto
  then show ?case
  proof cases
    case 1
    then show ?thesis by simp
  next
    case 2
    from "1.prems"(1) 2(1) have na: "\<not> is_absolute n" and v: "valid_names t" by auto
    from "1.IH"[OF 2(1) refl v 2(2)] have "prefix (path_join dirpath n) d'" .
    with path_join_prefix[OF na, of dirpath] show ?thesis by (rule prefix_order.order_trans)
  qed
qed

lemma collect_walk_append:
  "collect_walk p inc exc (xs @ ys) = collect_walk p inc exc xs @ collect_walk p inc exc ys"
  by (simp add: collect_walk_def)

lemma collect_walk_concat:
  "collect_walk p inc exc (concat xss) = concat (map (collect_walk p inc exc) xss)"
  by (induction xss) (simp_all add: collect_walk_append, simp add: collect_walk_def)

lemma collect_walk_Dir:
  "collect_walk pattern include_dirs exclude_dirs (walk dirpath (Dir filenames dirnames)) =
     (if dir_selected include_dirs exclude_dirs dirpath
      then map (\<lambda>(filename, st_size). path_join dirpath filename)
             (filter (file_selected pattern) filenames)
      else []) @
     concat (map (\<lambda>(d, t). collect_walk pattern include_dirs exclude_dirs
                               (walk (path_join dirpath d) t)) dirnames)"
proof -
  have "collect_walk pattern include_dirs exclude_dirs
          (concat (map (\<lambda>(d, t). walk (path_join dirpath d) t) dirnames)) =
        concat (map (\<lambda>(d, t). collect_walk pattern include_dirs exclude_dirs
                               (walk (path_join dirpath d) t)) dirnames)"
    by (simp add: collect_walk_concat comp_def case_prod_unfold)
  moreover have "collect_walk pattern include_dirs exclude_dirs
           ((dirpath, filenames) # rest) =
     (if dir_selected include_dirs exclude_dirs dirpath
      then map (\<lambda>(filename, st_size). path_join dirpath filename)
             (filter (file_selected pattern) filenames)
      else []) @ collect_walk pattern include_dirs exclude_dirs rest" for rest
    by (simp add: collect_walk_def)
  ultimately show ?thesis by simp
qed

lemma excluded_not_selected:
  assumes "excl \<in> set exclude_dirs" "substring_in (lower excl) (lower d)" "prefix d d'"
  shows "\<not> dir_selected include_dirs exclude_dirs d'"
proof -
  from assms(3) have "prefix (lower d) (lower d')"
    by (auto simp: lower_def prefix_def)
  then have "sublist (lower d) (lower d')" by (rule prefix_imp_sublist)
  with assms(2) have "substring_in (lower excl) (lower d')"
    unfolding substring_in_sublist by (rule sublist_order.order_trans)
  with assms(1) show ?thesis
    by (auto simp: dir_selected_def Let_def list_ex_iff)
qed

lemma collect_walk_excluded:
  assumes "valid_names t" "excl \<in> set exclude_dirs" "substring_in (lower excl) (lower d)"
  shows "collect_walk pattern include_dirs exclude_dirs (walk d t) = []"
proof -
  have "\<not> dir_selected include_dirs exclude_dirs d'" if "(d', fs) \<in> set (walk d t)" for d' fs
    using excluded_not_selected[OF assms(2,3) walk_prefix[OF assms(1) that]] .
  then show ?thesis by (auto simp: collect_walk_def)
qed



text \<open>
  C8. What the two directory filters of \<open>collect_wav_files\<close> skip. The files collected
  under a directory are the selected files of the directory itself followed by what is
  collected in each of its subdirectories. A directory whose path contains none of the
  configured include substrings contributes no file of its own, but its subdirectories
  are still walked and judged by their own paths. A directory whose path contains an
  exclude substring contributes nothing at all, subtree included, since the path of every
  directory below it contains its path. The pool of one source directory is what is
  collected from its tree.
\<close>

theorem directory_filters:
  "collect_walk pattern include_dirs exclude_dirs (walk dirpath (Dir filenames dirnames)) =
     (if dir_selected include_dirs exclude_dirs dirpath
      then map (\<lambda>(filename, st_size). path_join dirpath filename)
             (filter (file_selected pattern) filenames)
      else []) @
     concat (map (\<lambda>(d, t). collect_walk pattern include_dirs exclude_dirs
                               (walk (path_join dirpath d) t)) dirnames) \<and>
   (include_dirs \<noteq> [] \<and>
    \<not> list_ex (\<lambda>incl. substring_in (lower incl) (lower dirpath)) include_dirs \<longrightarrow>
      collect_walk pattern include_dirs exclude_dirs (walk dirpath (Dir filenames dirnames)) =
        concat (map (\<lambda>(d, t). collect_walk pattern include_dirs exclude_dirs
                                  (walk (path_join dirpath d) t)) dirnames)) \<and>
   (valid_names t \<and> excl \<in> set exclude_dirs \<and> substring_in (lower excl) (lower dirpath) \<longrightarrow>
      collect_walk pattern include_dirs exclude_dirs (walk dirpath t) = []) \<and>
   (disk source_dir = Some t \<longrightarrow>
      collect_wav_files disk [source_dir] pattern include_dirs exclude_dirs =
        collect_walk pattern include_dirs exclude_dirs (walk source_dir t))"
proof -
  note A = collect_walk_Dir[of pattern include_dirs exclude_dirs dirpath filenames dirnames]
  have B: "collect_walk pattern include_dirs exclude_dirs (walk dirpath (Dir filenames dirnames)) =
        concat (map (\<lambda>(d, t). collect_walk pattern include_dirs exclude_dirs
                                  (walk (path_join dirpath d) t)) dirnames)"
    if "include_dirs \<noteq> []"
      "\<not> list_ex (\<lambda>incl. substring_in (lower incl) (lower dirpath)) include_dirs"
  proof -
    from that have "\<not> dir_selected include_dirs exclude_dirs dirpath"
      by (simp add: dir_selected_def Let_def)
    with A show ?thesis by simp
  qed
  have C: "collect_walk pattern include_dirs exclude_dirs (walk dirpath t) = []"
    if "valid_names t" "excl \<in> set exclude_dirs" "substring_in (lower excl) (lower dirpath)"
    using that by (rule collect_walk_excluded)
  have D: "collect_wav_files disk [source_dir] pattern include_dirs exclude_dirs =
        collect_walk pattern include_dirs exclude_dirs (walk source_dir t)"
    if "disk source_dir = Some t"
    using that by (simp add: collect_wav_files_def)
  from A B C D show ?thesis by blast
qed

text \<open>
  An instance: with include substring \<open>kick\<close>, the directory \<open>/lib\<close> does not match and
  gives only the file of its subdirectory \<open>Kicks\<close>; with exclude substring \<open>LOOP\<close> nothing
  under \<open>/lib/Loops\<close> is collected.
\<close>

theorem directory_filters_witness:
  "[''kick''] \<noteq> [] \<and>
   \<not> list_ex (\<lambda>incl. substring_in (lower incl) (lower ''/lib'')) [''kick''] \<and>
   collect_walk None [''kick''] []
     (walk ''/lib'' (Dir [(''readme.wav'', Some 100)] [(''Kicks'', Dir [(''k.wav'', Some 1000)] [])]))
     = [''/lib/Kicks/k.wav''] \<and>
   valid_names (Dir [(''l.wav'', Some 1000)] [(''Kick Loops'', Dir [(''kl.wav'', Some 1000)] [])]) \<and>
   ''LOOP'' \<in> set [''LOOP''] \<and>
   substring_in (lower ''LOOP'') (lower ''/lib/Loops'') \<and>
   collect_walk None [''kick''] [''LOOP'']
     (walk ''/lib/Loops''
        (Dir [(''l.wav'', Some 1000)] [(''Kick Loops'', Dir [(''kl.wav'', Some 1000)] [])])) = [] \<and>
   kick_library ''/lib'' \<noteq> None \<and>
   collect_wav_files kick_library [''/lib''] None [''kick''] [''LOOP''] = [''/lib/Kicks/k.wav'']"
proof -
  let ?kicks = "Dir [(''k.wav'', Some 1000)] []"
  let ?loops = "Dir [(''l.wav'', Some 1000)] [(''Kick Loops'', Dir [(''kl.wav'', Some 1000)] [])]"
  have h1: "[''kick''] \<noteq> [] \<and>
     \<not> list_ex (\<lambda>incl. substring_in (lower incl) (lower ''/lib'')) [''kick'']"
    by code_simp
  have sub: "collect_walk None [''kick''] [] (walk (path_join ''/lib'' ''Kicks'') ?kicks)
      = [''/lib/Kicks/k.wav'']"
    by code_simp
  from directory_filters[of None "[''kick'']" "[]" "''/lib''" "[(''readme.wav'', Some 100)]"
      "[(''Kicks'', ?kicks)]"] h1
  have "collect_walk None [''kick''] []
     (walk ''/lib'' (Dir [(''readme.wav'', Some 100)] [(''Kicks'', ?kicks)])) =
     concat (map (\<lambda>(d, t). collect_walk None [''kick''] [] (walk (path_join ''/lib'' d) t))
       [(''Kicks'', ?kicks)])"
    by blast
  with sub have w1: "collect_walk None [''kick''] []
     (walk ''/lib'' (Dir [(''readme.wav'', Some 100)] [(''Kicks'', ?kicks)])) = [''/lib/Kicks/k.wav'']"
    by simp
  have h2: "valid_names ?loops \<and> ''LOOP'' \<in> set [''LOOP''] \<and>
      substring_in (lower ''LOOP'') (lower ''/lib/Loops'')"
    by code_simp
  from directory_filters[of None "[''kick'']" "[''LOOP'']" "''/lib/Loops''" "[]" "[]" ?loops "''LOOP''"] h2
  have w2: "collect_walk None [''kick''] [''LOOP''] (walk ''/lib/Loops'' ?loops) = []"
    by blast
  have h3: "kick_library ''/lib'' \<noteq> None" by (simp add: kick_library_def)
  have w3: "collect_wav_files kick_library [''/lib''] None [''kick''] [''LOOP''] = [''/lib/Kicks/k.wav'']"
    by code_simp
  from h1 w1 h2 w2 h3 w3 show ?thesis by blast
qed

text \<open>
  C8 as stated fails. The include list is \<open>kick\<close> and the path \<open>/lib\<close> contains no
  include substring, yet files under \<open>/lib\<close> enter the pool: those of the deeper
  directories \<open>/lib/Kicks\<close> and \<open>/lib/Loops/Kick Loops\<close>, whose own paths match.
\<close>

theorem include_subtree_counterexample:
  "\<not> list_ex (\<lambda>incl. substring_in (lower incl) (lower ''/lib'')) [''kick''] \<and>
   prefix ''/lib'' ''/lib/Kicks/k.wav'' \<and>
   collect_wav_files kick_library [''/lib''] None [''kick''] [] =
     [''/lib/Kicks/k.wav'', ''/lib/Loops/Kick Loops/kl.wav'']"
  by code_simp

section \<open>Properties of materialization\<close>

text \<open>
  A disk with two kicks, the first of which the audio library cannot decode, and an audio
  library that converts every other content.
\<close>

definition kick_disk :: "path \<Rightarrow> string option" where
  "kick_disk = [''/lib/k1.wav'' \<mapsto> ''broken'', ''/lib/k2.wav'' \<mapsto> ''good'']"

definition kick_pydub :: "string \<Rightarrow> int \<Rightarrow> string audio_result" where
  "kick_pydub audio channels =
     (if audio = ''broken'' then CouldntDecodeError else Exported (''mono:'' @ audio))"

text \<open>
  C7. What the materializer does with a chosen file whose normalization fails. The file
  is on disk, its destination is another path, and the audio library raises instead of
  exporting. Then \<open>copy2\<close> succeeds, \<open>convert_audio\<close> catches the exception and prints
  its line, and nothing reaches the \<open>except\<close> branch of \<open>create_sample_pack\<close> that would
  unlink the destination: after the file is processed the destination path exists and
  holds the unconverted copy. The failure is printed and the loop goes on.
\<close>

theorem failed_normalization_keeps_copy:
  assumes "files file_path = Some audio"
    and "dest_file_path pack_dir subfolder file_path \<noteq> file_path"
    and "\<forall>trimmed_audio. pydub audio channels \<noteq> Exported trimmed_audio"
  shows "process_file pydub pack_dir subfolder channels (files, log) file_path =
           (files(dest_file_path pack_dir subfolder file_path \<mapsto> audio),
            log @ [case pydub audio channels of
                     CouldntDecodeError \<Rightarrow> Could_not_decode (dest_file_path pack_dir subfolder file_path)
                   | _ \<Rightarrow> Error_processing (dest_file_path pack_dir subfolder file_path)]) \<and>
         fst (process_file pydub pack_dir subfolder channels (files, log) file_path)
           (dest_file_path pack_dir subfolder file_path) = Some audio"
proof -
  define dest where "dest = dest_file_path pack_dir subfolder file_path"
  have ne: "file_path \<noteq> dest" using assms(2) by (auto simp: dest_def)
  have c: "copy2 files file_path dest = Inr (files(dest \<mapsto> audio))"
    using assms(1) ne by (simp add: copy2_def)
  have "process_file pydub pack_dir subfolder channels (files, log) file_path =
          convert_audio pydub (files(dest \<mapsto> audio), log) dest channels"
    using c by (simp add: process_file_def Let_def dest_def)
  also have "\<dots> = (files(dest \<mapsto> audio),
            log @ [case pydub audio channels of
                     CouldntDecodeError \<Rightarrow> Could_not_decode dest
                   | _ \<Rightarrow> Error_processing dest])"
    using assms(3) by (cases "pydub audio channels") (simp_all add: convert_audio_def)
  finally show ?thesis unfolding dest_def by simp
qed

text \<open>
  The run on \<open>kick_disk\<close>: the plan holds both kicks, the first fails to decode. The
  second kick is converted; the first is still at its destination, unconverted.
\<close>

theorem failed_normalization_keeps_copy_witness:
  "kick_disk ''/lib/k1.wav'' = Some ''broken'' \<and>
   dest_file_path ''/packs/Blue Horse'' ''Kick'' ''/lib/k1.wav'' = ''/packs/Blue Horse/Kick/k1.wav'' \<and>
   kick_pydub ''broken'' 1 = CouldntDecodeError \<and>
   process_file kick_pydub ''/packs/Blue Horse'' ''Kick'' 1 (kick_disk, []) ''/lib/k1.wav'' =
     (kick_disk(''/packs/Blue Horse/Kick/k1.wav'' \<mapsto> ''broken''),
      [Could_not_decode ''/packs/Blue Horse/Kick/k1.wav'']) \<and>
   (case materialize kick_pydub [(''Kick'', Some 1)] ''/packs/Blue Horse'' (kick_disk, [])
           [(''Kick'', [''/lib/k1.wav'', ''/lib/k2.wav''])] of
      Inl e \<Rightarrow> False
    | Inr (files, log) \<Rightarrow>
        files ''/packs/Blue Horse/Kick/k1.wav'' = Some ''broken'' \<and>
        files ''/packs/Blue Horse/Kick/k2.wav'' = Some ''mono:good'' \<and>
        log = [Could_not_decode ''/packs/Blue Horse/Kick/k1.wav''])"
proof -
  have f: "kick_disk ''/lib/k1.wav'' = Some ''broken''" by (simp add: kick_disk_def)
  have d: "dest_file_path ''/packs/Blue Horse'' ''Kick'' ''/lib/k1.wav'' = ''/packs/Blue Horse/Kick/k1.wav''"
    by (simp add: dest_file_path_def path_join_def is_absolute_def name_def)
  have ne: "dest_file_path ''/packs/Blue Horse'' ''Kick'' ''/lib/k1.wav'' \<noteq> ''/lib/k1.wav''"
    unfolding d by simp
  have p: "kick_pydub ''broken'' 1 = CouldntDecodeError" by (simp add: kick_pydub_def)
  have np: "\<forall>trimmed_audio. kick_pydub ''broken'' 1 \<noteq> Exported trimmed_audio"
    by (simp add: p)
  from failed_normalization_keeps_copy[where files = kick_disk and file_path = "''/lib/k1.wav''"
      and audio = "''broken''" and pack_dir = "''/packs/Blue Horse''" and subfolder = "''Kick''"
      and pydub = kick_pydub and channels = 1 and log = "[]"] f ne np
  have s: "process_file kick_pydub ''/packs/Blue Horse'' ''Kick'' 1 (kick_disk, []) ''/lib/k1.wav'' =
     (kick_disk(''/packs/Blue Horse/Kick/k1.wav'' \<mapsto> ''broken''),
      [Could_not_decode ''/packs/Blue Horse/Kick/k1.wav''])"
    unfolding d by (simp add: p)
  have m: "(case materialize kick_pydub [(''Kick'', Some 1)] ''/packs/Blue Horse'' (kick_disk, [])
           [(''Kick'', [''/lib/k1.wav'', ''/lib/k2.wav''])] of
      Inl e \<Rightarrow> False
    | Inr (files, log) \<Rightarrow>
        files ''/packs/Blue Horse/Kick/k1.wav'' = Some ''broken'' \<and>
        files ''/packs/Blue Horse/Kick/k2.wav'' = Some ''mono:good'' \<and>
        log = [Could_not_decode ''/packs/Blue Horse/Kick/k1.wav''])"
    by (simp add: s)
       (simp add: process_file_def dest_file_path_def path_join_def is_absolute_def name_def
          copy2_def convert_audio_def Let_def kick_disk_def kick_pydub_def)
  from f d p s m show ?thesis by blast
qed

text \<open>
  C10. The destination of a chosen file is \<open>pack_dir / subfolder / file_path.name\<close> and
  nothing else. Two chosen files of one category with the same base name therefore have
  the same destination; materializing a plan that holds both succeeds, creates that one
  path only, and leaves there what the second file gave (converted if its conversion
  succeeds, the plain copy otherwise): fewer files are created than the plan holds.
\<close>

theorem same_basename_overwrites:
  assumes "name f1 = name f2" and "files f1 = Some c1" and "files f2 = Some c2"
    and "dest_file_path pack_dir subfolder f1 \<noteq> f1"
    and "dest_file_path pack_dir subfolder f1 \<noteq> f2"
    and "map_of config subfolder = Some (Some channels)"
  shows "dest_file_path pack_dir subfolder f1 =
           path_join (path_join pack_dir subfolder) (name f1) \<and>
         dest_file_path pack_dir subfolder f2 = dest_file_path pack_dir subfolder f1 \<and>
         (\<exists>files' log'.
            materialize pydub config pack_dir (files, log) [(subfolder, [f1, f2])]
              = Inr (files', log') \<and>
            dom files' = insert (dest_file_path pack_dir subfolder f1) (dom files) \<and>
            files' (dest_file_path pack_dir subfolder f1) =
              Some (case pydub c2 channels of Exported a \<Rightarrow> a | _ \<Rightarrow> c2) \<and>
            card (dom files' - dom files) < length [f1, f2])"
proof -
  define dest where "dest = dest_file_path pack_dir subfolder f1"
  have d2: "dest_file_path pack_dir subfolder f2 = dest"
    using assms(1) by (simp add: dest_def dest_file_path_def)
  have ne: "f1 \<noteq> dest" "f2 \<noteq> dest" using assms(4,5) by (auto simp: dest_def)
  obtain files1 log1 where s1: "process_file pydub pack_dir subfolder channels (files, log) f1 = (files1, log1)"
    and dom1: "dom files1 = insert dest (dom files)" and f2': "files1 f2 = Some c2"
    using assms(2,3) ne
    by (cases "pydub c1 channels")
       (auto simp: process_file_def copy2_def convert_audio_def dest_def[symmetric] Let_def)
  obtain files2 log2 where s2: "process_file pydub pack_dir subfolder channels (files1, log1) f2 = (files2, log2)"
    and dom2: "dom files2 = insert dest (dom files1)"
    and v2: "files2 dest = Some (case pydub c2 channels of Exported a \<Rightarrow> a | _ \<Rightarrow> c2)"
    using f2' ne
    by (cases "pydub c2 channels")
       (auto simp: process_file_def copy2_def convert_audio_def d2 Let_def)
  have m: "materialize pydub config pack_dir (files, log) [(subfolder, [f1, f2])] = Inr (files2, log2)"
    using assms(6) s1 s2 by simp
  have dom: "dom files2 = insert dest (dom files)" using dom1 dom2 by simp
  have "dom files2 - dom files \<subseteq> {dest}" using dom by auto
  then have "card (dom files2 - dom files) \<le> card {dest}" by (intro card_mono) auto
  then have c: "card (dom files2 - dom files) < length [f1, f2]" by simp
  from m dom v2 c d2 show ?thesis
    unfolding dest_def[symmetric] by (auto simp: dest_def dest_file_path_def)
qed


text \<open>Two files named \<open>x.wav\<close> in different directories, chosen for \<open>Kick\<close>.\<close>

theorem same_basename_overwrites_witness:
  "name ''/a/x.wav'' = name ''/b/x.wav'' \<and>
   dest_file_path ''/pack'' ''Kick'' ''/a/x.wav'' = ''/pack/Kick/x.wav'' \<and>
   dest_file_path ''/pack'' ''Kick'' ''/b/x.wav'' = ''/pack/Kick/x.wav'' \<and>
   (\<exists>files' log'.
      materialize (\<lambda>c ch. Exported (c + ch)) [(''Kick'', Some 1)] ''/pack''
        ([''/a/x.wav'' \<mapsto> (10::int), ''/b/x.wav'' \<mapsto> 20], []) [(''Kick'', [''/a/x.wav'', ''/b/x.wav''])]
        = Inr (files', log') \<and>
      files' ''/pack/Kick/x.wav'' = Some 21 \<and>
      card (dom files' - {''/a/x.wav'', ''/b/x.wav''}) < 2)"
proof -
  have n: "name ''/a/x.wav'' = name ''/b/x.wav''" by (simp add: name_def)
  have d1: "dest_file_path ''/pack'' ''Kick'' ''/a/x.wav'' = ''/pack/Kick/x.wav''"
    by (simp add: dest_file_path_def path_join_def is_absolute_def name_def)
  have d2: "dest_file_path ''/pack'' ''Kick'' ''/b/x.wav'' = ''/pack/Kick/x.wav''"
    by (simp add: dest_file_path_def path_join_def is_absolute_def name_def)
  let ?files = "[''/a/x.wav'' \<mapsto> (10::int), ''/b/x.wav'' \<mapsto> 20]"
  let ?pydub = "\<lambda>(c::int) (ch::int). Exported (c + ch)"
  have ne1: "dest_file_path ''/pack'' ''Kick'' ''/a/x.wav'' \<noteq> ''/a/x.wav''"
    unfolding d1 by simp
  have ne2: "dest_file_path ''/pack'' ''Kick'' ''/a/x.wav'' \<noteq> ''/b/x.wav''"
    unfolding d1 by simp
  have f1: "?files ''/a/x.wav'' = Some 10" by simp
  have f2: "?files ''/b/x.wav'' = Some 20" by simp
  have c: "map_of [(''Kick'', Some (1::int))] ''Kick'' = Some (Some 1)" by simp
  from same_basename_overwrites[OF n f1 f2 ne1 ne2 c, of ?pydub "[]"]
  obtain files' log' where
    m: "materialize ?pydub [(''Kick'', Some 1)] ''/pack'' (?files, [])
          [(''Kick'', [''/a/x.wav'', ''/b/x.wav''])] = Inr (files', log')"
    and v: "files' (dest_file_path ''/pack'' ''Kick'' ''/a/x.wav'') =
          Some (case ?pydub 20 1 of Exported a \<Rightarrow> a | _ \<Rightarrow> 20)"
    and k: "card (dom files' - dom ?files) < length [''/a/x.wav'', ''/b/x.wav'']"
    by blast
  have dm: "dom ?files = {''/a/x.wav'', ''/b/x.wav''}" by auto
  from v have v': "files' ''/pack/Kick/x.wav'' = Some 21" unfolding d1 by simp
  from k have k': "card (dom files' - {''/a/x.wav'', ''/b/x.wav''}) < 2" unfolding dm by simp
  from n d1 d2 m v' k' show ?thesis by blast
qed

end
